theory Spec2Isabelle
  imports Main "HOL-Library.AList" "HOL-Library.Char_ord" "HOL-Library.List_Lexorder"
    "HOL-Library.Multiset" "HOL-Library.Sublist"
begin

section \<open>at-utils: \<^verbatim>\<open>lib/Utils.js\<close>\<close>

text \<open>
  A shallow embedding of the dependency aggregator, the tree scanner, the schema collector
  and the release selector of \<^verbatim>\<open>lib/Utils.js\<close>.

  Conventions of the embedding.
  \<^item> A JavaScript object used as a dictionary is an association list with distinct keys in
    insertion order: \<^verbatim>\<open>o[k] = v\<close> is \<^const>\<open>AList.update\<close> (an existing key keeps its
    place, a new key goes to the end), \<^verbatim>\<open>o[k]\<close> is \<^const>\<open>map_of\<close>, \<^verbatim>\<open>Object.keys(o)\<close> is
    \<open>map fst\<close>, \<^verbatim>\<open>delete o[k]\<close> is \<^const>\<open>AList.delete\<close>. Properties inherited from
    \<^verbatim>\<open>Object.prototype\<close> and the numeric ordering of integer-like keys are outside the model.
  \<^item> Strings are \<^typ>\<open>string\<close>; \<^verbatim>\<open>Array.prototype.sort()\<close> without a comparator on an
    array of strings is \<^const>\<open>sort\<close> in the lexicographic order of the character codes.
  \<^item> A rejected promise or a thrown exception is the \<open>Inl\<close> of a sum.
  \<^item> The callbacks passed to \<^verbatim>\<open>Promise.all(xs.map(async ...))\<close> run their synchronous tail
    one after another in the order in which their reads complete; a function over a list
    takes that list in arrival order.
\<close>

subsection \<open>Dependency aggregator\<close>

text \<open>The fields of a \<^verbatim>\<open>package.json\<close> that the code reads. An absent \<^verbatim>\<open>dependencies\<close> or
  \<^verbatim>\<open>devDependencies\<close> (\<^verbatim>\<open>undefined\<close>) is \<open>None\<close>.\<close>

record package_json =
  pkg_name :: string
  pkg_version :: string
  pkg_description :: string
  dependencies :: "(string \<times> string) list option"
  devDependencies :: "(string \<times> string) list option"

text \<open>\<^verbatim>\<open>deps\<close> while the manifests are merged: every value of \<^verbatim>\<open>all\<close> and \<^verbatim>\<open>dev\<close> is an array.\<close>

record deps_memo =
  adapt_m :: "(string \<times> string) list"
  all_m :: "(string \<times> string list) list"
  dev_m :: "(string \<times> string list) list"

text \<open>A value of \<^verbatim>\<open>all\<close> or \<^verbatim>\<open>dev\<close> after \<^verbatim>\<open>processDeps\<close>: a string or an array of strings.\<close>

datatype versions = Single string | Many "string list"

record deps =
  adapt :: "(string \<times> string) list"
  all_deps :: "(string \<times> versions) list"
  dev :: "(string \<times> versions) list"

text \<open>The body of the inner \<^verbatim>\<open>forEach\<close> (lines 280-284):
  \<^verbatim>\<open>if (!memo[k]) memo[k] = []; if (!memo[k].includes(v)) memo[k].push(v); memo[k] = memo[k].sort()\<close>.\<close>

fun addDep :: "(string \<times> string list) list \<Rightarrow> string \<times> string \<Rightarrow> (string \<times> string list) list" where
  "addDep memo (k, v) =
     (let memo1 = (case map_of memo k of None \<Rightarrow> AList.update k [] memo | Some _ \<Rightarrow> memo);
          vs = (case map_of memo1 k of None \<Rightarrow> [] | Some vs \<Rightarrow> vs);
          vs1 = (if v \<in> set vs then vs else vs @ [v])
      in AList.update k (sort vs1) memo1)"

text \<open>\<^verbatim>\<open>([deps = {}, memo]) => Object.entries(deps).forEach(...)\<close>\<close>

definition addDeps :: "(string \<times> string) list option \<Rightarrow> (string \<times> string list) list \<Rightarrow> (string \<times> string list) list" where
  "addDeps ds memo = foldl addDep memo (case ds of None \<Rightarrow> [] | Some es \<Rightarrow> es)"

text \<open>The synchronous tail of the callback of line 276, for one parsed manifest.\<close>

definition addPackage :: "deps_memo \<Rightarrow> package_json \<Rightarrow> deps_memo" where
  "addPackage d p =
     \<lparr>adapt_m = AList.update (pkg_name p) (pkg_version p) (adapt_m d),
      all_m = addDeps (dependencies p) (all_m d),
      dev_m = addDeps (devDependencies p) (dev_m d)\<rparr>"

text \<open>\<^verbatim>\<open>processDeps\<close> (lines 356-366) rebuilds each of the three objects with its keys sorted;
  a value of length one is replaced by its element at index 0. On a string (the values of
  \<^verbatim>\<open>adapt\<close>) that element is the one-character string again.\<close>

definition sortKeys :: "('v \<Rightarrow> 'w) \<Rightarrow> (string \<times> 'v) list \<Rightarrow> (string \<times> 'w) list" where
  "sortKeys f v =
     foldl (\<lambda>sorted d. case map_of v d of None \<Rightarrow> sorted | Some x \<Rightarrow> AList.update d (f x) sorted)
       [] (sort (map fst v))"

definition collapseString :: "string \<Rightarrow> string" where
  "collapseString s = (if length s = 1 then [s ! 0] else s)"

definition collapseArray :: "string list \<Rightarrow> versions" where
  "collapseArray vs = (if length vs = 1 then Single (vs ! 0) else Many vs)"

definition processDeps :: "deps_memo \<Rightarrow> deps" where
  "processDeps d =
     \<lparr>adapt = sortKeys collapseString (adapt_m d),
      all_deps = sortKeys collapseArray (all_m d),
      dev = sortKeys collapseArray (dev_m d)\<rparr>"

text \<open>Lines 288-291: \<^verbatim>\<open>Object.keys(deps.all).forEach(k => { if (adaptKeys.includes(k)) delete deps.all[k] })\<close>.
  Only \<^verbatim>\<open>deps.all\<close> is scanned.\<close>

definition removeAdaptKeys :: "deps \<Rightarrow> deps" where
  "removeAdaptKeys d =
     (let adaptKeys = map fst (adapt d)
      in d\<lparr>all_deps := foldl (\<lambda>al k. if k \<in> set adaptKeys then AList.delete k al else al)
                         (all_deps d) (map fst (all_deps d))\<rparr>)"

text \<open>\<^verbatim>\<open>getAppDependencies\<close> (lines 273-293) after the scan and the reads: \<open>ps\<close> are the parsed
  manifests of the discovered plugins in arrival order.\<close>

definition mergePackages :: "package_json list \<Rightarrow> deps_memo" where
  "mergePackages ps = foldl addPackage \<lparr>adapt_m = [], all_m = [], dev_m = []\<rparr> ps"

definition appDependencies :: "package_json list \<Rightarrow> deps" where
  "appDependencies ps = removeAdaptKeys (processDeps (mergePackages ps))"

text \<open>The version specifiers that the manifests \<open>ps\<close> declare for the dependency \<open>k\<close> in the
  field \<open>sel\<close> (\<^const>\<open>dependencies\<close> or \<^const>\<open>devDependencies\<close>), in the order of the
  manifests: what the properties of the aggregator are stated against.\<close>

definition entries :: "(string \<times> string) list option \<Rightarrow> (string \<times> string) list" where
  "entries ds = (case ds of None \<Rightarrow> [] | Some es \<Rightarrow> es)"

definition specifiers :: "(package_json \<Rightarrow> (string \<times> string) list option) \<Rightarrow> package_json list \<Rightarrow> string \<Rightarrow> string list" where
  "specifiers sel ps k = concat (map (\<lambda>p. map snd (filter (\<lambda>e. fst e = k) (entries (sel p)))) ps)"

text \<open>Plugins used as concrete inputs below.\<close>

definition plugin_a :: package_json where
  "plugin_a = \<lparr>pkg_name = ''adapt-authoring-a'', pkg_version = ''1.0.0'', pkg_description = ''a'',
      dependencies = Some [(''adapt-authoring-b'', ''^1.0.0''), (''lodash'', ''^2.0.0''), (''glob'', ''^8.0.0'')],
      devDependencies = Some [(''adapt-authoring-b'', ''^1.0.0''), (''mocha'', ''^9.0.0'')]\<rparr>"

definition plugin_b :: package_json where
  "plugin_b = \<lparr>pkg_name = ''adapt-authoring-b'', pkg_version = ''2.0.0'', pkg_description = ''b'',
      dependencies = Some [(''lodash'', ''^1.0.0''), (''glob'', ''^8.0.0'')],
      devDependencies = None\<rparr>"

definition plugin_b_nested :: package_json where
  "plugin_b_nested = \<lparr>pkg_name = ''adapt-authoring-b'', pkg_version = ''1.5.0'', pkg_description = ''b'',
      dependencies = None, devDependencies = None\<rparr>"

subsection \<open>Errors\<close>

text \<open>What a rejected promise of the modelled functions carries: the error of \<^verbatim>\<open>githubRequest\<close>
  for a status above 299 (with the status text), a failed \<^verbatim>\<open>fetch\<close>, a \<^verbatim>\<open>TypeError\<close> of
  the runtime (a property read on \<^verbatim>\<open>undefined\<close>), the \<^verbatim>\<open>Failed to load\<close> error of
  \<^verbatim>\<open>loadJson\<close>, and a failed \<^verbatim>\<open>fs\<close> call on a path.\<close>

datatype error =
    RequestError string
  | FetchError string
  | TypeError
  | LoadError string
  | FsError string

subsection \<open>Paths\<close>

text \<open>Node's \<^verbatim>\<open>path\<close> module on POSIX, on the arguments the code gives it: \<^verbatim>\<open>path.join\<close> of
  two plain segments, \<^verbatim>\<open>path.resolve\<close> of an absolute normalised directory and an entry name,
  and \<^verbatim>\<open>path.dirname\<close> (the scan of Node's implementation: trailing slashes are skipped, the
  path is cut at the last slash before them, index 0 is never cut).\<close>

definition path_join :: "string \<Rightarrow> string \<Rightarrow> string" where
  "path_join a b = a @ ''/'' @ b"

definition path_resolve :: "string \<Rightarrow> string \<Rightarrow> string" where
  "path_resolve dir c = (if dir = ''/'' then dir @ c else dir @ ''/'' @ c)"

definition path_dirname :: "string \<Rightarrow> string" where
  "path_dirname p =
     (case p of
        [] \<Rightarrow> ''.''
      | c # cs \<Rightarrow>
          (case dropWhile (\<lambda>x. x \<noteq> CHR ''/'') (dropWhile (\<lambda>x. x = CHR ''/'') (rev cs)) of
             [] \<Rightarrow> if c = CHR ''/'' then ''/'' else ''.''
           | _ # r \<Rightarrow> if c = CHR ''/'' \<and> r = [] then ''//'' else c # rev r))"

text \<open>\<^verbatim>\<open>String.prototype.endsWith\<close>\<close>

definition endsWith :: "string \<Rightarrow> string \<Rightarrow> bool" where
  "endsWith s t \<longleftrightarrow> length t \<le> length s \<and> drop (length s - length t) s = t"

subsection \<open>Tree scanner\<close>

text \<open>The installed tree as \<^verbatim>\<open>fs.readdir\<close> and \<^verbatim>\<open>fs.stat\<close> show it to the walk: a directory
  with its entries, any entry that is not a directory (\<open>File\<close>), an entry on which
  \<^verbatim>\<open>fs.stat\<close> rejects (\<open>Dangling\<close>: a broken link, or a path that a chain of links has made
  too long), and a directory on which \<^verbatim>\<open>fs.readdir\<close> rejects (\<open>Unreadable\<close>).\<close>

datatype fsnode =
    File
  | Dir "(string \<times> fsnode) list"
  | Dangling
  | Unreadable

definition relativeSchemaPath :: string where
  "relativeSchemaPath = path_join ''conf'' ''config.schema.json''"

definition metaFilename :: string where
  "metaFilename = ''adapt-authoring.json''"

text \<open>\<^verbatim>\<open>getConfigSchemaPathsRecursive\<close> (lines 334-343). \<open>files\<close> is the shared accumulator; the
  entries of a directory are taken in listing order, and the first rejection rejects the
  whole \<^verbatim>\<open>Promise.all\<close>.\<close>

fun getConfigSchemaPathsRecursive :: "string \<Rightarrow> fsnode \<Rightarrow> string list \<Rightarrow> error + string list"
  and configSchemaPathsOfContents :: "string \<Rightarrow> (string \<times> fsnode) list \<Rightarrow> string list \<Rightarrow> error + string list"
where
  "getConfigSchemaPathsRecursive dir (Dir contents) files = configSchemaPathsOfContents dir contents files"
| "getConfigSchemaPathsRecursive dir File files = Inl (FsError dir)"
| "getConfigSchemaPathsRecursive dir Dangling files = Inl (FsError dir)"
| "getConfigSchemaPathsRecursive dir Unreadable files = Inl (FsError dir)"
| "configSchemaPathsOfContents dir [] files = Inr files"
| "configSchemaPathsOfContents dir ((c, File) # cs) files =
     (let fullPath = path_resolve dir c
      in configSchemaPathsOfContents dir cs
           (if endsWith fullPath relativeSchemaPath then files @ [fullPath] else files))"
| "configSchemaPathsOfContents dir ((c, Dangling) # cs) files = Inl (FsError (path_resolve dir c))"
| "configSchemaPathsOfContents dir ((c, n) # cs) files =
     (let fullPath = path_resolve dir c
      in case getConfigSchemaPathsRecursive fullPath n files of
           Inl e \<Rightarrow> Inl e
         | Inr files' \<Rightarrow> configSchemaPathsOfContents dir cs files')"

text \<open>\<^verbatim>\<open>getAdaptDepsRecursive\<close> (lines 345-354): the same walk, pushing the
  \<^verbatim>\<open>path.dirname\<close> of every match.\<close>

fun getAdaptDepsRecursive :: "string \<Rightarrow> fsnode \<Rightarrow> string list \<Rightarrow> error + string list"
  and adaptDepsOfContents :: "string \<Rightarrow> (string \<times> fsnode) list \<Rightarrow> string list \<Rightarrow> error + string list"
where
  "getAdaptDepsRecursive dir (Dir contents) dirs = adaptDepsOfContents dir contents dirs"
| "getAdaptDepsRecursive dir File dirs = Inl (FsError dir)"
| "getAdaptDepsRecursive dir Dangling dirs = Inl (FsError dir)"
| "getAdaptDepsRecursive dir Unreadable dirs = Inl (FsError dir)"
| "adaptDepsOfContents dir [] dirs = Inr dirs"
| "adaptDepsOfContents dir ((c, File) # cs) dirs =
     (let fullPath = path_resolve dir c
      in adaptDepsOfContents dir cs
           (if endsWith fullPath metaFilename then dirs @ [path_dirname fullPath] else dirs))"
| "adaptDepsOfContents dir ((c, Dangling) # cs) dirs = Inl (FsError (path_resolve dir c))"
| "adaptDepsOfContents dir ((c, n) # cs) dirs =
     (let fullPath = path_resolve dir c
      in case getAdaptDepsRecursive fullPath n dirs of
           Inl e \<Rightarrow> Inl e
         | Inr dirs' \<Rightarrow> adaptDepsOfContents dir cs dirs')"

text \<open>What the scanner is specified against: every entry below \<open>dir\<close> that is not a directory,
  as the pair of its containing directory and its name, at any depth.\<close>

fun fileEntries :: "string \<Rightarrow> fsnode \<Rightarrow> (string \<times> string) list"
  and fileEntriesOfContents :: "string \<Rightarrow> (string \<times> fsnode) list \<Rightarrow> (string \<times> string) list"
where
  "fileEntries dir (Dir contents) = fileEntriesOfContents dir contents"
| "fileEntries dir File = []"
| "fileEntries dir Dangling = []"
| "fileEntries dir Unreadable = []"
| "fileEntriesOfContents dir [] = []"
| "fileEntriesOfContents dir ((c, File) # cs) = (dir, c) # fileEntriesOfContents dir cs"
| "fileEntriesOfContents dir ((c, n) # cs) =
     fileEntries (path_resolve dir c) n @ fileEntriesOfContents dir cs"

definition filesUnder :: "string \<Rightarrow> fsnode \<Rightarrow> string list" where
  "filesUnder dir t = map (\<lambda>(d, c). path_resolve d c) (fileEntries dir t)"

text \<open>A tree on which every \<^verbatim>\<open>fs.readdir\<close> and \<^verbatim>\<open>fs.stat\<close> of the walk succeeds.\<close>

fun readable :: "fsnode \<Rightarrow> bool"
  and readableContents :: "(string \<times> fsnode) list \<Rightarrow> bool"
where
  "readable (Dir contents) = readableContents contents"
| "readable File = False"
| "readable Dangling = False"
| "readable Unreadable = False"
| "readableContents [] = True"
| "readableContents ((c, File) # cs) = readableContents cs"
| "readableContents ((c, n) # cs) = (readable n \<and> readableContents cs)"


text \<open>Entry names as \<^verbatim>\<open>fs.readdir\<close> returns them (not empty, no slash), and a directory path
  as \<^verbatim>\<open>path.resolve\<close> returns it (absolute, no trailing slash but for the root).\<close>

definition validName :: "string \<Rightarrow> bool" where
  "validName c \<longleftrightarrow> c \<noteq> [] \<and> CHR ''/'' \<notin> set c"

fun validNames :: "fsnode \<Rightarrow> bool"
  and validNamesOfContents :: "(string \<times> fsnode) list \<Rightarrow> bool"
where
  "validNames (Dir contents) = validNamesOfContents contents"
| "validNames File = True"
| "validNames Dangling = True"
| "validNames Unreadable = True"
| "validNamesOfContents [] = True"
| "validNamesOfContents ((c, n) # cs) = (validName c \<and> validNames n \<and> validNamesOfContents cs)"

definition resolvedDir :: "string \<Rightarrow> bool" where
  "resolvedDir dir = (case dir of [] \<Rightarrow> False | c # d \<Rightarrow> c = CHR ''/'' \<and> (d = [] \<or> last d \<noteq> CHR ''/''))"

definition exampleTree :: fsnode where
  "exampleTree =
     Dir [(''adapt-authoring-a'',
            Dir [(''adapt-authoring.json'', File), (''package.json'', File),
                 (''conf'', Dir [(''config.schema.json'', File)]),
                 (''node_modules'',
                    Dir [(''adapt-authoring-b'',
                           Dir [(''adapt-authoring.json'', File), (''package.json'', File)])])]),
          (''lodash'', Dir [(''package.json'', File), (''myconf'', Dir [(''config.schema.json'', File)])])]"

subsection \<open>Schema collector\<close>

text \<open>Parsed JSON documents.\<close>

datatype json =
    JNull
  | JBool bool
  | JNumber int
  | JString string
  | JArray "json list"
  | JObject "(string \<times> json) list"

text \<open>Property access on a parsed document (\<open>None\<close> is \<^verbatim>\<open>undefined\<close>).\<close>

fun jget :: "json \<Rightarrow> string \<Rightarrow> json option" where
  "jget (JObject kvs) k = map_of kvs k"
| "jget _ k = None"

text \<open>Access along a path of property names, and the own keys of an object.\<close>

fun jpath :: "json \<Rightarrow> string list \<Rightarrow> json option" where
  "jpath j [] = Some j"
| "jpath j (k # ks) = (case jget j k of None \<Rightarrow> None | Some j' \<Rightarrow> jpath j' ks)"

fun jkeys :: "json option \<Rightarrow> string list" where
  "jkeys (Some (JObject kvs)) = map fst kvs"
| "jkeys _ = []"

record config_entry =
  name :: string
  description :: string
  version :: string
  schema :: json

record schemas =
  config :: "(string \<times> config_entry) list"
  user :: json

text \<open>The files that \<^verbatim>\<open>fs.readFile\<close> and \<^verbatim>\<open>JSON.parse\<close> are applied to: \<open>manifests\<close> gives
  the parsed \<^verbatim>\<open>package.json\<close> at a path and \<open>documents\<close> the parsed JSON file at a path,
  \<open>None\<close> where the read or the parse throws.\<close>

record files =
  manifests :: "string \<Rightarrow> package_json option"
  documents :: "string \<Rightarrow> json option"

text \<open>\<^verbatim>\<open>loadJson\<close> (lines 176-182) and \<^verbatim>\<open>loadPackage\<close> (lines 20-22).\<close>

definition loadJson :: "files \<Rightarrow> string \<Rightarrow> error + json" where
  "loadJson fs filePath =
     (case documents fs filePath of None \<Rightarrow> Inl (LoadError filePath) | Some j \<Rightarrow> Inr j)"

definition loadPackage :: "files \<Rightarrow> string \<Rightarrow> error + package_json" where
  "loadPackage fs filePath =
     (let p = path_join filePath ''package.json''
      in case manifests fs p of None \<Rightarrow> Inl (LoadError p) | Some m \<Rightarrow> Inr m)"

text \<open>The literal assigned to \<^verbatim>\<open>schemas.user\<close> (lines 159-172).\<close>

definition superUserSchema :: json where
  "superUserSchema =
     JObject [(''properties'',
       JObject [(''superUser'',
         JObject [(''title'', JString ''superuser''),
                  (''type'', JString ''object''),
                  (''properties'',
                     JObject [(''email'', JObject [(''description'', JString ''Email address for the user''),
                                                   (''type'', JString ''string''), (''format'', JString ''email'')]),
                              (''password'', JObject [(''description'', JString ''Password for the user''),
                                                      (''type'', JString ''string''), (''format'', JString ''password'')]),
                              (''confirmPassword'', JObject [(''description'', JString ''Re-enter password''),
                                                             (''type'', JString ''string''), (''format'', JString ''password'')])]),
                  (''required'', JArray [JString ''email'', JString ''password'', JString ''confirmPassword''])])])]"

text \<open>The callback of line 154 over the schema paths: \<^verbatim>\<open>path.resolve(path.dirname(s), '..')\<close>
  is the directory above the one that holds \<open>s\<close>.\<close>

fun loadConfigSchemas :: "files \<Rightarrow> string list \<Rightarrow> (string \<times> config_entry) list \<Rightarrow> error + (string \<times> config_entry) list" where
  "loadConfigSchemas fs [] cfg = Inr cfg"
| "loadConfigSchemas fs (s # ss) cfg =
     (case loadPackage fs (path_dirname (path_dirname s)) of
        Inl e \<Rightarrow> Inl e
      | Inr pkg \<Rightarrow>
          (case loadJson fs s of
             Inl e \<Rightarrow> Inl e
           | Inr sch \<Rightarrow>
               loadConfigSchemas fs ss
                 (AList.update (pkg_name pkg)
                    \<lparr>name = pkg_name pkg, description = pkg_description pkg,
                     version = pkg_version pkg, schema = sch\<rparr> cfg)))"

text \<open>\<^verbatim>\<open>getSchemas\<close> (lines 151-174); \<open>modules\<close> is the tree at \<^verbatim>\<open>rootDir/node_modules\<close>.\<close>

definition getSchemas :: "fsnode \<Rightarrow> files \<Rightarrow> string \<Rightarrow> error + schemas" where
  "getSchemas modules fs rootDir =
     (case getConfigSchemaPathsRecursive (path_resolve rootDir ''node_modules'') modules [] of
        Inl e \<Rightarrow> Inl e
      | Inr configSchemaPaths \<Rightarrow>
          (case loadConfigSchemas fs configSchemaPaths [] of
             Inl e \<Rightarrow> Inl e
           | Inr cfg \<Rightarrow> Inr \<lparr>config = cfg, user = superUserSchema\<rparr>))"

text \<open>\<^verbatim>\<open>getAppDependencies\<close> (lines 273-293) as a whole: the scan, the reads, the merge.\<close>

fun readManifests :: "files \<Rightarrow> string list \<Rightarrow> error + package_json list" where
  "readManifests fs [] = Inr []"
| "readManifests fs (d # ds) =
     (case manifests fs (path_join d ''package.json'') of
        None \<Rightarrow> Inl (LoadError (path_join d ''package.json''))
      | Some m \<Rightarrow> (case readManifests fs ds of Inl e \<Rightarrow> Inl e | Inr ms \<Rightarrow> Inr (m # ms)))"

definition getAppDependencies :: "fsnode \<Rightarrow> files \<Rightarrow> string \<Rightarrow> error + deps" where
  "getAppDependencies modules fs cwd =
     (case getAdaptDepsRecursive (path_join cwd ''node_modules'') modules [] of
        Inl e \<Rightarrow> Inl e
      | Inr adaptDeps \<Rightarrow>
          (case readManifests fs adaptDeps of
             Inl e \<Rightarrow> Inl e
           | Inr ps \<Rightarrow> Inr (appDependencies ps)))"

definition lodash_package :: package_json where
  "lodash_package = \<lparr>pkg_name = ''lodash'', pkg_version = ''4.17.21'', pkg_description = ''utilities'',
      dependencies = None, devDependencies = None\<rparr>"

definition exampleFiles :: files where
  "exampleFiles =
     \<lparr>manifests = map_of [(''/app/node_modules/adapt-authoring-a/package.json'', plugin_a),
                          (''/app/node_modules/adapt-authoring-a/node_modules/adapt-authoring-b/package.json'', plugin_b),
                          (''/app/node_modules/lodash/package.json'', lodash_package)],
      documents = map_of [(''/app/node_modules/adapt-authoring-a/conf/config.schema.json'',
                            JObject [(''type'', JString ''object'')]),
                          (''/app/node_modules/lodash/myconf/config.schema.json'', JNull)]\<rparr>"

subsection \<open>Release selector\<close>

text \<open>The functions of the libraries that \<^verbatim>\<open>getReleases\<close> calls: \<^verbatim>\<open>semver.valid\<close> (as its
  truth value), \<^verbatim>\<open>semver.gt\<close>, and the time value of \<^verbatim>\<open>new Date(s)\<close> in milliseconds
  (\<open>None\<close> for an invalid date).\<close>

record lib =
  semver_valid :: "string \<Rightarrow> bool"
  semver_gt :: "string \<Rightarrow> string \<Rightarrow> bool"
  Date :: "string \<Rightarrow> int option"

text \<open>An element of the \<^verbatim>\<open>releases\<close> array: what the host returns for a release, or the
  object pushed for a branch. A field that is \<^verbatim>\<open>undefined\<close> is \<open>None\<close>; \<^verbatim>\<open>published_at\<close> is
  the value that \<^verbatim>\<open>new Date\<close> is applied to.\<close>

record release =
  name :: string
  tag_name :: string
  published_at :: string
  draft :: "bool option"
  prerelease :: "bool option"
  branch :: "bool option"

text \<open>The same object after \<^verbatim>\<open>Object.assign\<close> (lines 89-92) has added \<^verbatim>\<open>date\<close>.\<close>

record candidate = release +
  date :: "int option"

datatype branch_ref = Branch (branch_name: string) (commit_url: string)

datatype commit_info = Commit (author_date: string)

text \<open>The outcome of \<^verbatim>\<open>fetch\<close>: a rejection, or a response with its status, its status text
  and its parsed body.\<close>

datatype 'a response = FetchFailed string | Response nat string 'a

record world =
  git_log :: "string + string"
  releases_api :: "release list response"
  branches_api :: "branch_ref list response"
  commits_api :: "string \<Rightarrow> commit_info response"

record options =
  currentVersion :: "string option"
  includeBranches :: bool
  includePrereleases :: bool
  includeDrafts :: bool

text \<open>\<^verbatim>\<open>githubRequest\<close> (lines 55-67), from the response on: \<open>Inr None\<close> is the
  \<^verbatim>\<open>undefined\<close> returned for status 204.\<close>

fun githubRequest :: "'a response \<Rightarrow> error + 'a option" where
  "githubRequest (FetchFailed msg) = Inl (FetchError msg)"
| "githubRequest (Response status statusText body) =
     (if status > 299 then Inl (RequestError statusText)
      else if status \<noteq> 204 then Inr (Some body)
      else Inr None)"

text \<open>Truthiness of an optional boolean, and the comparison of two time values
  (\<^verbatim>\<open>undefined\<close> and an invalid date are \<^verbatim>\<open>NaN\<close>, for which \<^verbatim>\<open><\<close> and \<^verbatim>\<open>>\<close> are false).\<close>

definition truthy :: "bool option \<Rightarrow> bool" where
  "truthy b \<longleftrightarrow> b = Some True"

definition time_less :: "int option \<Rightarrow> int option \<Rightarrow> bool" where
  "time_less a b = (case a of None \<Rightarrow> False | Some x \<Rightarrow> (case b of None \<Rightarrow> False | Some y \<Rightarrow> x < y))"

text \<open>\<^verbatim>\<open>url.slice(url.indexOf('commits/'))\<close>: \<^verbatim>\<open>indexOf\<close> is \<open>-1\<close> when there is no match,
  and \<^verbatim>\<open>slice(-1)\<close> is the last character.\<close>

fun indexOf :: "string \<Rightarrow> string \<Rightarrow> nat option" where
  "indexOf [] t = (if t = [] then Some 0 else None)"
| "indexOf (c # cs) t =
     (if prefix t (c # cs) then Some 0
      else case indexOf cs t of None \<Rightarrow> None | Some i \<Rightarrow> Some (Suc i))"

definition commitEndpoint :: "string \<Rightarrow> string" where
  "commitEndpoint url =
     (case indexOf url ''commits/'' of
        Some i \<Rightarrow> drop i url
      | None \<Rightarrow> drop (length url - 1) url)"

text \<open>Lines 76-86: one request per branch, one object pushed per answer. \<open>releases\<close> is
  \<open>None\<close> when the first request answered 204, and \<^verbatim>\<open>push\<close> on it is a \<^verbatim>\<open>TypeError\<close>.
  The branches are taken in listing order.\<close>

fun pushBranches :: "world \<Rightarrow> branch_ref list \<Rightarrow> release list option \<Rightarrow> error + release list option" where
  "pushBranches w [] releases = Inr releases"
| "pushBranches w (b # bs) releases =
     (case githubRequest (commits_api w (commitEndpoint (commit_url b))) of
        Inl e \<Rightarrow> Inl e
      | Inr None \<Rightarrow> Inl TypeError
      | Inr (Some commit) \<Rightarrow>
          (case releases of
             None \<Rightarrow> Inl TypeError
           | Some rs \<Rightarrow>
               pushBranches w bs
                 (Some (rs @ [\<lparr>name = branch_name b @ '' (branch)'',
                               tag_name = branch_name b,
                               published_at = author_date commit,
                               draft = None, prerelease = None,
                               branch = Some True\<rparr>]))))"

text \<open>Lines 74-86: the array that the \<^verbatim>\<open>map\<close> of line 88 is called on.\<close>

definition fetchReleases :: "world \<Rightarrow> options \<Rightarrow> error + release list" where
  "fetchReleases w opts =
     (case githubRequest (releases_api w) of
        Inl e \<Rightarrow> Inl e
      | Inr releases \<Rightarrow>
          (case (if includeBranches opts
                 then (case githubRequest (branches_api w) of
                         Inl e \<Rightarrow> Inl e
                       | Inr None \<Rightarrow> Inl TypeError
                       | Inr (Some bs) \<Rightarrow> pushBranches w bs releases)
                 else Inr releases) of
             Inl e \<Rightarrow> Inl e
           | Inr None \<Rightarrow> Inl TypeError
           | Inr (Some rs) \<Rightarrow> Inr rs))"

text \<open>The callback of \<^verbatim>\<open>map\<close> (lines 88-93).\<close>

definition annotate :: "lib \<Rightarrow> release \<Rightarrow> candidate" where
  "annotate L r =
     \<lparr>name = name r @ (if truthy (draft r) then '' (draft)''
                        else if truthy (prerelease r) then '' (prerelease)'' else ''''),
      tag_name = tag_name r,
      published_at = published_at r,
      draft = draft r,
      prerelease = prerelease r,
      branch = branch r,
      date = Date L (published_at r)\<rparr>"

text \<open>The callback of \<^verbatim>\<open>filter\<close> (lines 94-102). \<^verbatim>\<open>!options.currentVersion\<close> holds for
  \<^verbatim>\<open>undefined\<close> and for the empty string.\<close>

definition keepRelease :: "lib \<Rightarrow> options \<Rightarrow> int option \<Rightarrow> candidate \<Rightarrow> bool" where
  "keepRelease L opts currentVersionDate r =
     (if Some (tag_name r) = currentVersion opts
         \<or> (truthy (prerelease r) \<and> \<not> includePrereleases opts)
         \<or> (truthy (draft r) \<and> \<not> includeDrafts opts)
      then False
      else
        (let noCurrent = (case currentVersion opts of None \<Rightarrow> True | Some v \<Rightarrow> v = []);
             semverNewer = (case currentVersion opts of
                              None \<Rightarrow> False
                            | Some v \<Rightarrow> semver_valid L v \<and> semver_valid L (tag_name r)
                                         \<and> semver_gt L (tag_name r) v);
             gitNewer = time_less currentVersionDate (date r)
         in noCurrent \<or> semverNewer \<or> gitNewer))"

text \<open>The comparator of line 103. It never returns 0: for two candidates of equal date, or
  when one of the dates is invalid (\<^verbatim>\<open>NaN\<close>, where \<^verbatim>\<open><\<close> is false), it returns \<^verbatim>\<open>-1\<close> both ways.\<close>

definition compareDates :: "candidate \<Rightarrow> candidate \<Rightarrow> int" where
  "compareDates a b = (if time_less (date a) (date b) then 1 else - 1)"

text \<open>\<^verbatim>\<open>Array.prototype.sort\<close> with a comparator. For a comparator that is not consistent
  the language leaves the resulting order to the engine, so the model follows the engine of
  Node, V8, whose \<^verbatim>\<open>ArrayTimSortImpl\<close> (\<^verbatim>\<open>third_party/v8/builtins/array-sort.tq\<close>) sorts an
  array of fewer than 64 elements as one run: \<^verbatim>\<open>CountAndMakeRun\<close> takes the longest prefix
  that is non-descending, or strictly descending (and then reverses it), comparing each
  element with its predecessor; \<^verbatim>\<open>BinaryInsertionSort\<close> then inserts every further element
  into the run at the place a binary search gives. The array sorted here holds the releases
  of one page (\<^verbatim>\<open>per_page=10\<close>) and the branches of one page. The comparator is called as
  \<^verbatim>\<open>comparefn(x, y)\<close> with the arguments in the order written below, and only the sign
  of its result is used.\<close>

fun extendRun :: "('a \<Rightarrow> 'a \<Rightarrow> int) \<Rightarrow> bool \<Rightarrow> 'a \<Rightarrow> 'a list \<Rightarrow> 'a list \<times> 'a list" where
  "extendRun cmp isDescending previousElement [] = ([], [])"
| "extendRun cmp isDescending previousElement (currentElement # rest) =
     (let order = cmp currentElement previousElement in
      if (if isDescending then order \<ge> 0 else order < 0) then ([], currentElement # rest)
      else (case extendRun cmp isDescending currentElement rest of
              (run, rest') \<Rightarrow> (currentElement # run, rest')))"

fun countAndMakeRun :: "('a \<Rightarrow> 'a \<Rightarrow> int) \<Rightarrow> 'a list \<Rightarrow> 'a list \<times> 'a list" where
  "countAndMakeRun cmp [] = ([], [])"
| "countAndMakeRun cmp [x] = ([x], [])"
| "countAndMakeRun cmp (elementHigh # elementLow # rest) =
     (let isDescending = cmp elementLow elementHigh < 0 in
      case extendRun cmp isDescending elementLow rest of
        (run, rest') \<Rightarrow>
          (if isDescending then rev (elementHigh # elementLow # run)
           else elementHigh # elementLow # run, rest'))"

function binarySearch :: "('a \<Rightarrow> 'a \<Rightarrow> int) \<Rightarrow> 'a \<Rightarrow> 'a list \<Rightarrow> nat \<Rightarrow> nat \<Rightarrow> nat" where
  "binarySearch cmp pivot a left right =
     (if left < right then
        (let mid = left + (right - left) div 2 in
         if cmp pivot (a ! mid) < 0 then binarySearch cmp pivot a left mid
         else binarySearch cmp pivot a (mid + 1) right)
      else left)"
  by pat_completeness auto
termination by (relation "measure (\<lambda>(cmp, pivot, a, left, right). right - left)") auto

declare binarySearch.simps [simp del]

definition insertPivot :: "('a \<Rightarrow> 'a \<Rightarrow> int) \<Rightarrow> 'a list \<Rightarrow> 'a \<Rightarrow> 'a list" where
  "insertPivot cmp a pivot =
     (let left = binarySearch cmp pivot a 0 (length a) in take left a @ pivot # drop left a)"

definition binaryInsertionSort :: "('a \<Rightarrow> 'a \<Rightarrow> int) \<Rightarrow> 'a list \<Rightarrow> 'a list \<Rightarrow> 'a list" where
  "binaryInsertionSort cmp run rest = foldl (insertPivot cmp) run rest"

definition arrayTimSort :: "('a \<Rightarrow> 'a \<Rightarrow> int) \<Rightarrow> 'a list \<Rightarrow> 'a list" where
  "arrayTimSort cmp a =
     (if length a < 2 then a
      else case countAndMakeRun cmp a of (run, rest) \<Rightarrow> binaryInsertionSort cmp run rest)"

text \<open>Lines 87-103 on the fetched array, and \<^verbatim>\<open>getReleases\<close> (lines 69-104).\<close>

definition selectReleases :: "lib \<Rightarrow> options \<Rightarrow> int option \<Rightarrow> release list \<Rightarrow> candidate list" where
  "selectReleases L opts currentVersionDate releases =
     arrayTimSort compareDates (filter (keepRelease L opts currentVersionDate) (map (annotate L) releases))"

definition currentVersionDateOf :: "lib \<Rightarrow> world \<Rightarrow> int option" where
  "currentVersionDateOf L w = (case git_log w of Inl e \<Rightarrow> None | Inr out \<Rightarrow> Date L out)"

definition getReleases :: "lib \<Rightarrow> world \<Rightarrow> options \<Rightarrow> error + candidate list" where
  "getReleases L w opts =
     (let currentVersionDate = currentVersionDateOf L w
      in case fetchReleases w opts of
           Inl e \<Rightarrow> Inl e
         | Inr releases \<Rightarrow> Inr (selectReleases L opts currentVersionDate releases))"


text \<open>The author date of the head commit of a branch, as the request of line 78 returns it
  (the empty string when the request does not answer with a commit).\<close>

definition headCommitDate :: "world \<Rightarrow> branch_ref \<Rightarrow> string" where
  "headCommitDate w b =
     (case githubRequest (commits_api w (commitEndpoint (commit_url b))) of
        Inr (Some commit) \<Rightarrow> author_date commit
      | _ \<Rightarrow> '''')"

text \<open>A concrete remote state: three tagged releases and one branch. The library functions
  are given by tables on the strings that occur.\<close>

definition exampleVersions :: "(string \<times> nat) list" where
  "exampleVersions = [(''3.1.0'', 1), (''3.2.0'', 2), (''3.3.0'', 3)]"

definition exampleDates :: "(string \<times> int) list" where
  "exampleDates =
     [(''2024-01-10T00:00:00Z'', 1704844800000),
      (''2024-02-01T00:00:00Z'', 1706745600000),
      (''Mon Feb 5 10:00:00 2024 +0000'', 1707127200000),
      (''2024-02-20T00:00:00Z'', 1708387200000),
      (''2024-03-01T00:00:00Z'', 1709251200000)]"

definition exampleLib :: lib where
  "exampleLib =
     \<lparr>semver_valid = (\<lambda>v. map_of exampleVersions v \<noteq> None),
      semver_gt = (\<lambda>a b. case map_of exampleVersions a of
                             None \<Rightarrow> False
                           | Some x \<Rightarrow> (case map_of exampleVersions b of None \<Rightarrow> False | Some y \<Rightarrow> y < x)),
      Date = map_of exampleDates\<rparr>"

definition exampleReleases :: "release list" where
  "exampleReleases =
     [\<lparr>name = ''Release 3.3.0'', tag_name = ''3.3.0'', published_at = ''2024-02-20T00:00:00Z'',
       draft = Some False, prerelease = Some False, branch = None\<rparr>,
      \<lparr>name = ''Release 3.2.0'', tag_name = ''3.2.0'', published_at = ''2024-02-01T00:00:00Z'',
       draft = Some False, prerelease = Some False, branch = None\<rparr>,
      \<lparr>name = ''Release 3.1.0'', tag_name = ''3.1.0'', published_at = ''2024-01-10T00:00:00Z'',
       draft = Some False, prerelease = Some True, branch = None\<rparr>]"

definition exampleBranch :: branch_ref where
  "exampleBranch =
     Branch ''master'' ''https://api.github.com/repos/adapt-security/adapt-authoring/commits/abc123''"

definition exampleWorld :: world where
  "exampleWorld =
     \<lparr>git_log = Inr ''Mon Feb 5 10:00:00 2024 +0000'',
      releases_api = Response 200 ''OK'' exampleReleases,
      branches_api = Response 200 ''OK'' [exampleBranch],
      commits_api = (\<lambda>endpoint. if endpoint = ''commits/abc123''
                                  then Response 200 ''OK'' (Commit ''2024-03-01T00:00:00Z'')
                                  else Response 404 ''Not Found'' (Commit ''''))\<rparr>"

definition exampleOptions :: options where
  "exampleOptions =
     \<lparr>currentVersion = Some ''3.2.0'', includeBranches = True,
      includePrereleases = False, includeDrafts = False\<rparr>"

text \<open>A branch candidate as it is specified: the branch name with the suffix
  \<^verbatim>\<open> (branch)\<close> as name, the branch name as tag, the author date of the head commit as
  date, \<^verbatim>\<open>branch\<close> set, no \<^verbatim>\<open>draft\<close> and no \<^verbatim>\<open>prerelease\<close>.\<close>

definition branchCandidate :: "lib \<Rightarrow> world \<Rightarrow> branch_ref \<Rightarrow> candidate" where
  "branchCandidate L w b =
     \<lparr>name = branch_name b @ '' (branch)'',
      tag_name = branch_name b,
      published_at = headCommitDate w b,
      draft = None,
      prerelease = None,
      branch = Some True,
      date = Date L (headCommitDate w b)\<rparr>"

subsection \<open>Auxiliary notions for the aggregator\<close>

text \<open>The accumulator of one field after the manifests \<open>ps\<close>, and of \<^verbatim>\<open>adapt\<close>; the set of
  specifiers stored for a key; the invariant of the merge (every stored array is sorted, free
  of duplicates and not empty); and manifests that agree on the version whenever they agree
  on the name.\<close>

definition mergeSel :: "(package_json \<Rightarrow> (string \<times> string) list option) \<Rightarrow> (string \<times> string list) list \<Rightarrow> package_json list \<Rightarrow> (string \<times> string list) list" where
  "mergeSel sel memo ps = foldl (\<lambda>m p. addDeps (sel p) m) memo ps"

definition setAdapt :: "(string \<times> string) list \<Rightarrow> package_json list \<Rightarrow> (string \<times> string) list" where
  "setAdapt a ps = foldl (\<lambda>a p. AList.update (pkg_name p) (pkg_version p) a) a ps"

definition specSet :: "(string \<times> string list) list \<Rightarrow> string \<Rightarrow> string set" where
  "specSet memo k = (case map_of memo k of None \<Rightarrow> {} | Some vs \<Rightarrow> set vs)"

definition sortedVals :: "(string \<times> string list) list \<Rightarrow> bool" where
  "sortedVals memo \<longleftrightarrow> (\<forall>k vs. map_of memo k = Some vs \<longrightarrow> sorted vs \<and> distinct vs \<and> vs \<noteq> [])"

definition sameNameSameVersion :: "package_json list \<Rightarrow> bool" where
  "sameNameSameVersion ps \<longleftrightarrow>
     (\<forall>p\<in>set ps. \<forall>q\<in>set ps. pkg_name p = pkg_name q \<longrightarrow> pkg_version p = pkg_version q)"
subsection \<open>Auxiliary notion for the sort\<close>

text \<open>Two neighbours \<open>x, y\<close> are in an order that the comparator gave: it put \<open>x\<close> before
  \<open>y\<close>, or it did not put \<open>y\<close> before \<open>x\<close>.\<close>

definition justified :: "('a \<Rightarrow> 'a \<Rightarrow> int) \<Rightarrow> 'a \<Rightarrow> 'a \<Rightarrow> bool" where
  "justified cmp x y \<longleftrightarrow> cmp x y < 0 \<or> 0 \<le> cmp y x"


section \<open>Properties\<close>

subsection \<open>Dependency aggregator\<close>

lemma addDep_update:
  "addDep memo (k, v) =
     AList.update k (sort (case map_of memo k of None \<Rightarrow> [v]
                           | Some vs \<Rightarrow> if v \<in> set vs then vs else vs @ [v])) memo"
  by (simp add: update_conv' split: option.splits)

declare addDep.simps [simp del]

lemma map_of_addDep:
  "map_of (addDep memo (k, v)) k' =
     (if k' = k then Some (sort (case map_of memo k of None \<Rightarrow> [v]
                           | Some vs \<Rightarrow> if v \<in> set vs then vs else vs @ [v]))
      else map_of memo k')"
  unfolding addDep_update by (simp add: update_conv')

lemma keys_addDep: "fst ` set (addDep memo (k, v)) = insert k (fst ` set memo)"
  unfolding addDep_update by (simp add: dom_update)

lemma distinct_addDep: "distinct (map fst memo) \<Longrightarrow> distinct (map fst (addDep memo e))"
  by (cases e) (simp only: addDep_update distinct_update)

lemma specSet_addDep:
  "specSet (addDep memo (k, v)) k' = (if k' = k then insert v (specSet memo k) else specSet memo k')"
proof (cases "map_of memo k")
  case None
  then show ?thesis by (simp add: specSet_def map_of_addDep)
next
  case (Some vs)
  then show ?thesis by (cases "v \<in> set vs") (simp_all add: specSet_def map_of_addDep insert_absorb)
qed

lemma sort_eq_Nil: "sort xs = [] \<longleftrightarrow> xs = []"
  by (metis length_sort length_0_conv)

lemma sortedVals_addDep: "sortedVals memo \<Longrightarrow> sortedVals (addDep memo e)"
proof (cases e)
  case (Pair k v)
  assume a: "sortedVals memo"
  define ws where "ws = (case map_of memo k of None \<Rightarrow> [v]
                           | Some vs \<Rightarrow> if v \<in> set vs then vs else vs @ [v])"
  have ws: "distinct ws \<and> ws \<noteq> []"
  proof (cases "map_of memo k")
    case None
    then show ?thesis by (simp add: ws_def)
  next
    case (Some us)
    with a have "distinct us" "us \<noteq> []" unfolding sortedVals_def by blast+
    with Some show ?thesis by (simp add: ws_def)
  qed
  show ?thesis unfolding Pair sortedVals_def
  proof (intro allI impI)
    fix k' vs assume h: "map_of (addDep memo (k, v)) k' = Some vs"
    show "sorted vs \<and> distinct vs \<and> vs \<noteq> []"
    proof (cases "k' = k")
      case False
      with h have "map_of memo k' = Some vs" by (simp add: map_of_addDep)
      with a show ?thesis unfolding sortedVals_def by blast
    next
      case True
      with h have "vs = sort ws" by (simp add: map_of_addDep ws_def)
      with ws show ?thesis by (simp add: sort_eq_Nil)
    qed
  qed
qed

lemma specSet_foldl:
  "specSet (foldl addDep memo es) k = specSet memo k \<union> snd ` {x \<in> set es. fst x = k}"
proof (induction es arbitrary: memo)
  case Nil
  show ?case by simp
next
  case (Cons e es)
  obtain k' v' where e: "e = (k', v')" by (cases e)
  have "specSet (foldl addDep memo (e # es)) k
          = specSet (addDep memo (k', v')) k \<union> snd ` {x \<in> set es. fst x = k}"
    using Cons.IH e by simp
  also have "\<dots> = specSet memo k \<union> snd ` {x \<in> set (e # es). fst x = k}"
  proof (cases "k = k'")
    case True
    then have "{x \<in> set (e # es). fst x = k} = insert e {x \<in> set es. fst x = k}"
      using e by auto
    then show ?thesis using True e by (simp add: specSet_addDep)
  next
    case False
    then have "{x \<in> set (e # es). fst x = k} = {x \<in> set es. fst x = k}"
      using e by auto
    then show ?thesis using False by (simp add: specSet_addDep)
  qed
  finally show ?case .
qed

lemma keys_foldl: "fst ` set (foldl addDep memo es) = fst ` set memo \<union> fst ` set es"
proof (induction es arbitrary: memo)
  case Nil
  show ?case by simp
next
  case (Cons e es)
  obtain k' v' where e: "e = (k', v')" by (cases e)
  have "fst ` set (foldl addDep memo (e # es)) = fst ` set (addDep memo (k', v')) \<union> fst ` set es"
    using Cons.IH e by simp
  then show ?case by (simp add: keys_addDep e)
qed

lemma distinct_foldl: "distinct (map fst memo) \<Longrightarrow> distinct (map fst (foldl addDep memo es))"
  by (induction es arbitrary: memo) (simp_all add: distinct_addDep)

lemma sortedVals_foldl: "sortedVals memo \<Longrightarrow> sortedVals (foldl addDep memo es)"
  by (induction es arbitrary: memo) (simp_all add: sortedVals_addDep)

lemma addDeps_entries: "addDeps ds memo = foldl addDep memo (entries ds)"
  by (simp add: addDeps_def entries_def)

lemma mergeSel_Nil: "mergeSel sel memo [] = memo"
  by (simp add: mergeSel_def)

lemma mergeSel_Cons: "mergeSel sel memo (p # ps) = mergeSel sel (addDeps (sel p) memo) ps"
  by (simp add: mergeSel_def)

lemma specifiers_Nil: "specifiers sel [] k = []"
  by (simp add: specifiers_def)

lemma set_specifiers_Cons:
  "set (specifiers sel (p # ps) k) = snd ` {x \<in> set (entries (sel p)). fst x = k} \<union> set (specifiers sel ps k)"
  by (simp add: specifiers_def)

lemma specSet_mergeSel:
  "specSet (mergeSel sel memo ps) k = specSet memo k \<union> set (specifiers sel ps k)"
proof (induction ps arbitrary: memo)
  case Nil
  show ?case by (simp add: mergeSel_Nil specifiers_Nil)
next
  case (Cons p ps)
  show ?case
    unfolding mergeSel_Cons Cons.IH set_specifiers_Cons addDeps_entries specSet_foldl
    by (simp add: Un_assoc)
qed

lemma keys_mergeSel:
  "fst ` set (mergeSel sel memo ps) = fst ` set memo \<union> (\<Union>p\<in>set ps. fst ` set (entries (sel p)))"
proof (induction ps arbitrary: memo)
  case Nil
  show ?case by (simp add: mergeSel_Nil)
next
  case (Cons p ps)
  show ?case
    unfolding mergeSel_Cons Cons.IH addDeps_entries keys_foldl
    by (simp add: Un_assoc)
qed

lemma distinct_mergeSel:
  "distinct (map fst memo) \<Longrightarrow> distinct (map fst (mergeSel sel memo ps))"
  by (induction ps arbitrary: memo) (simp_all add: mergeSel_Nil mergeSel_Cons addDeps_entries distinct_foldl)

lemma sortedVals_mergeSel:
  "sortedVals memo \<Longrightarrow> sortedVals (mergeSel sel memo ps)"
  by (induction ps arbitrary: memo) (simp_all add: mergeSel_Nil mergeSel_Cons addDeps_entries sortedVals_foldl)

lemma specifiers_keys:
  "specifiers sel ps k \<noteq> [] \<longleftrightarrow> k \<in> (\<Union>p\<in>set ps. fst ` set (entries (sel p)))"
proof -
  have "specifiers sel ps k \<noteq> [] \<longleftrightarrow> (\<exists>p\<in>set ps. filter (\<lambda>e. fst e = k) (entries (sel p)) \<noteq> [])"
    by (simp add: specifiers_def)
  also have "\<dots> \<longleftrightarrow> (\<exists>p\<in>set ps. \<exists>e\<in>set (entries (sel p)). fst e = k)"
    by (simp add: filter_empty_conv)
  also have "\<dots> \<longleftrightarrow> k \<in> (\<Union>p\<in>set ps. fst ` set (entries (sel p)))"
    by auto
  finally show ?thesis .
qed

lemma map_of_mergeSel:
  "map_of (mergeSel sel [] ps) k =
     (if specifiers sel ps k = [] then None
      else Some (sorted_list_of_set (set (specifiers sel ps k))))"
proof (cases "map_of (mergeSel sel [] ps) k")
  case None
  then have "k \<notin> fst ` set (mergeSel sel [] ps)" by (simp add: map_of_eq_None_iff)
  then have "specifiers sel ps k = []" using specifiers_keys [of sel ps k] by (simp add: keys_mergeSel)
  with None show ?thesis by simp
next
  case (Some vs)
  have "sortedVals (mergeSel sel [] ps)" by (rule sortedVals_mergeSel) (simp add: sortedVals_def)
  with Some have vs: "sorted vs" "distinct vs" "vs \<noteq> []" unfolding sortedVals_def by blast+
  have "set vs = set (specifiers sel ps k)"
    using specSet_mergeSel [of sel "[]" ps k] Some by (simp add: specSet_def)
  moreover have "sorted_list_of_set (set vs) = vs"
    using vs by (simp add: sorted_list_of_set.idem_if_sorted_distinct)
  moreover have "specifiers sel ps k \<noteq> []" using \<open>set vs = set (specifiers sel ps k)\<close> vs(3) by auto
  ultimately show ?thesis using Some by simp
qed

lemma foldl_addPackage:
  "foldl addPackage d ps =
     \<lparr>adapt_m = foldl (\<lambda>a p. AList.update (pkg_name p) (pkg_version p) a) (adapt_m d) ps,
      all_m = mergeSel dependencies (all_m d) ps,
      dev_m = mergeSel devDependencies (dev_m d) ps\<rparr>"
  by (induction ps arbitrary: d) (simp_all add: mergeSel_def addPackage_def)

lemma update_fresh: "k \<notin> fst ` set al \<Longrightarrow> AList.update k v al = al @ [(k, v)]"
  by (induction al) auto

lemma sortKeys_foldl:
  "distinct ks \<Longrightarrow> set ks \<inter> fst ` set acc = {} \<Longrightarrow> set ks \<subseteq> fst ` set v \<Longrightarrow>
   foldl (\<lambda>sorted d. case map_of v d of None \<Rightarrow> sorted | Some x \<Rightarrow> AList.update d (f x) sorted) acc ks
     = acc @ map (\<lambda>d. (d, f (the (map_of v d)))) ks"
proof (induction ks arbitrary: acc)
  case Nil
  show ?case by simp
next
  case (Cons d ks)
  from Cons.prems(3) obtain x where x: "map_of v d = Some x"
    by (cases "map_of v d") (auto simp: map_of_eq_None_iff)
  from Cons.prems(2) have fresh: "d \<notin> fst ` set acc" by auto
  have step: "AList.update d (f x) acc = acc @ [(d, f x)]" by (rule update_fresh [OF fresh])
  have disj: "set ks \<inter> fst ` set (acc @ [(d, f x)]) = {}"
    using Cons.prems(1,2) by auto
  have "foldl (\<lambda>sorted d. case map_of v d of None \<Rightarrow> sorted | Some x \<Rightarrow> AList.update d (f x) sorted) (acc @ [(d, f x)]) ks
          = (acc @ [(d, f x)]) @ map (\<lambda>d. (d, f (the (map_of v d)))) ks"
    using Cons.prems(1,3) by (intro Cons.IH [OF _ disj]) auto
  then show ?case by (simp add: x step)
qed

lemma sortKeys_map:
  "sortKeys f v = map (\<lambda>d. (d, f (the (map_of v d)))) (sort (map fst v))"
  if "distinct (map fst v)"
  unfolding sortKeys_def using sortKeys_foldl [of "sort (map fst v)" "[]" v f] that by simp

lemma keys_sortKeys: "distinct (map fst v) \<Longrightarrow> map fst (sortKeys f v) = sort (map fst v)"
  by (simp add: sortKeys_map comp_def)

lemma map_of_sortKeys:
  assumes "distinct (map fst v)"
  shows "map_of (sortKeys f v) k = map_option f (map_of v k)"
proof (cases "map_of v k")
  case None
  then have "k \<notin> set (sort (map fst v))" by (simp add: map_of_eq_None_iff)
  then have "k \<notin> fst ` set (sortKeys f v)" using keys_sortKeys [OF assms, of f]
    by (metis set_map)
  then have "map_of (sortKeys f v) k = None" by (rule map_of_eq_None_iff [THEN iffD2])
  then show ?thesis unfolding None by simp
next
  case (Some x)
  then have "k \<in> set (sort (map fst v))" by (auto dest: map_of_SomeD intro: rev_image_eqI)
  then have "(k, f (the (map_of v k))) \<in> set (sortKeys f v)"
    unfolding sortKeys_map [OF assms] by auto
  moreover have "distinct (map fst (sortKeys f v))"
    using keys_sortKeys [OF assms, of f] assms by simp
  ultimately show ?thesis using Some by simp
qed

lemma removeKeys_foldl:
  "foldl (\<lambda>al k. if k \<in> A then AList.delete k al else al) al ks
     = filter (\<lambda>p. fst p \<notin> A \<inter> set ks) al"
proof (induction ks arbitrary: al)
  case Nil
  show ?case by simp
next
  case (Cons k ks)
  show ?case
  proof (cases "k \<in> A")
    case True
    then show ?thesis by (auto simp: Cons.IH AList.delete_eq intro: filter_cong)
  next
    case False
    then show ?thesis by (auto simp: Cons.IH intro: filter_cong)
  qed
qed

lemma all_deps_removeAdaptKeys:
  "all_deps (removeAdaptKeys d) = filter (\<lambda>p. fst p \<notin> fst ` set (adapt d)) (all_deps d)"
  unfolding removeAdaptKeys_def Let_def by (auto simp: removeKeys_foldl intro: filter_cong)

lemma map_of_filter_keys:
  "map_of (filter (\<lambda>p. P (fst p)) al) k = (if P k then map_of al k else None)"
  by (induction al) auto

lemma setAdapt_snoc:
  "setAdapt a (ps @ [p]) = AList.update (pkg_name p) (pkg_version p) (setAdapt a ps)"
  by (simp add: setAdapt_def)

lemma setAdapt_Nil: "setAdapt a [] = a"
  by (simp add: setAdapt_def)

lemma keys_setAdapt: "fst ` set (setAdapt a ps) = fst ` set a \<union> pkg_name ` set ps"
proof (induction ps rule: rev_induct)
  case Nil
  show ?case by (simp add: setAdapt_Nil)
next
  case (snoc p ps)
  then show ?case by (simp add: setAdapt_snoc dom_update)
qed

lemma distinct_setAdapt: "distinct (map fst a) \<Longrightarrow> distinct (map fst (setAdapt a ps))"
  by (induction ps rule: rev_induct) (simp_all add: setAdapt_Nil setAdapt_snoc distinct_update)

lemma map_of_setAdapt_snoc:
  "map_of (setAdapt a (ps @ [p])) k =
     (if k = pkg_name p then Some (pkg_version p) else map_of (setAdapt a ps) k)"
  by (simp add: setAdapt_snoc update_conv')

lemma map_of_setAdapt:
  "sameNameSameVersion ps \<Longrightarrow>
   map_of (setAdapt [] ps) k = Some v \<longleftrightarrow> (\<exists>p\<in>set ps. pkg_name p = k \<and> pkg_version p = v)"
proof (induction ps rule: rev_induct)
  case Nil
  show ?case by (simp add: setAdapt_Nil)
next
  case (snoc p ps)
  have "set ps \<subseteq> set (ps @ [p])" "p \<in> set (ps @ [p])" by auto
  note mem = this
  from snoc.prems mem(1) have sub: "sameNameSameVersion ps"
    unfolding sameNameSameVersion_def by blast
  note IH = snoc.IH [OF sub]
  show ?case
  proof (cases "k = pkg_name p")
    case True
    have same: "\<And>q. q \<in> set ps \<Longrightarrow> pkg_name q = k \<Longrightarrow> pkg_version q = pkg_version p"
      using snoc.prems True mem unfolding sameNameSameVersion_def by blast
    have "map_of (setAdapt [] (ps @ [p])) k = Some (pkg_version p)"
      using True by (simp add: map_of_setAdapt_snoc)
    then have "map_of (setAdapt [] (ps @ [p])) k = Some v \<longleftrightarrow> v = pkg_version p"
      by auto
    also have "\<dots> \<longleftrightarrow> (\<exists>q\<in>set (ps @ [p]). pkg_name q = k \<and> pkg_version q = v)"
    proof
      assume "v = pkg_version p"
      then show "\<exists>q\<in>set (ps @ [p]). pkg_name q = k \<and> pkg_version q = v"
        using True by (intro bexI [of _ p]) simp_all
    next
      assume "\<exists>q\<in>set (ps @ [p]). pkg_name q = k \<and> pkg_version q = v"
      then obtain q where q: "q \<in> set (ps @ [p])" "pkg_name q = k" "pkg_version q = v" by blast
      from q(1) have "q = p \<or> q \<in> set ps" by auto
      then show "v = pkg_version p" using same q(2,3) by blast
    qed
    finally show ?thesis .
  next
    case False
    have "map_of (setAdapt [] (ps @ [p])) k = Some v \<longleftrightarrow> map_of (setAdapt [] ps) k = Some v"
      using False by (simp add: map_of_setAdapt_snoc)
    also have "\<dots> \<longleftrightarrow> (\<exists>q\<in>set ps. pkg_name q = k \<and> pkg_version q = v)" by (rule IH)
    also have "\<dots> \<longleftrightarrow> (\<exists>q\<in>set (ps @ [p]). pkg_name q = k \<and> pkg_version q = v)"
      using False by auto
    finally show ?thesis .
  qed
qed

lemma collapseString_id: "collapseString s = s"
proof (cases s)
  case Nil
  then show ?thesis by (simp add: collapseString_def)
next
  case (Cons c cs)
  then show ?thesis by (cases cs) (simp_all add: collapseString_def)
qed

lemma mergePackages_fields:
  "mergePackages ps =
     \<lparr>adapt_m = setAdapt [] ps,
      all_m = mergeSel dependencies [] ps,
      dev_m = mergeSel devDependencies [] ps\<rparr>"
  by (simp add: mergePackages_def foldl_addPackage setAdapt_def)

lemma adapt_appDependencies:
  "adapt (appDependencies ps) = sortKeys collapseString (setAdapt [] ps)"
  by (simp add: appDependencies_def removeAdaptKeys_def processDeps_def mergePackages_fields Let_def)

lemma dev_appDependencies:
  "dev (appDependencies ps) = sortKeys collapseArray (mergeSel devDependencies [] ps)"
  by (simp add: appDependencies_def removeAdaptKeys_def processDeps_def mergePackages_fields Let_def)

lemma adapt_keys: "fst ` set (adapt (appDependencies ps)) = pkg_name ` set ps"
proof -
  have d: "distinct (map fst (setAdapt [] ps))" by (rule distinct_setAdapt) simp
  have "set (map fst (sortKeys collapseString (setAdapt [] ps))) = set (map fst (setAdapt [] ps))"
    by (simp only: keys_sortKeys [OF d] set_sort)
  then show ?thesis by (simp add: adapt_appDependencies keys_setAdapt)
qed

lemma map_of_setAdapt_last:
  "map_of (setAdapt [] ps) k = map_option pkg_version (find (\<lambda>p. pkg_name p = k) (rev ps))"
  by (induction ps rule: rev_induct) (simp_all add: setAdapt_Nil map_of_setAdapt_snoc)

lemma map_of_adapt:
  "map_of (adapt (appDependencies ps)) k = map_option pkg_version (find (\<lambda>p. pkg_name p = k) (rev ps))"
proof -
  have d: "distinct (map fst (setAdapt [] ps))" by (rule distinct_setAdapt) simp
  have "map_of (adapt (appDependencies ps)) k = map_option collapseString (map_of (setAdapt [] ps) k)"
    by (simp only: adapt_appDependencies map_of_sortKeys [OF d])
  also have "\<dots> = map_of (setAdapt [] ps) k"
    by (cases "map_of (setAdapt [] ps) k") (simp_all add: collapseString_id)
  finally show ?thesis by (simp only: map_of_setAdapt_last)
qed

lemma all_deps_appDependencies:
  "all_deps (appDependencies ps) =
     filter (\<lambda>p. fst p \<notin> pkg_name ` set ps) (sortKeys collapseArray (mergeSel dependencies [] ps))"
proof -
  have "all_deps (appDependencies ps) =
        filter (\<lambda>p. fst p \<notin> fst ` set (adapt (processDeps (mergePackages ps))))
          (all_deps (processDeps (mergePackages ps)))"
    by (simp only: appDependencies_def all_deps_removeAdaptKeys)
  moreover have "adapt (processDeps (mergePackages ps)) = adapt (appDependencies ps)"
    by (simp add: appDependencies_def removeAdaptKeys_def Let_def)
  moreover have "all_deps (processDeps (mergePackages ps)) = sortKeys collapseArray (mergeSel dependencies [] ps)"
    by (simp add: processDeps_def mergePackages_fields)
  ultimately show ?thesis by (simp only: adapt_keys)
qed

lemma map_of_processed:
  "map_of (sortKeys collapseArray (mergeSel sel [] ps)) k =
     (if specifiers sel ps k = [] then None
      else Some (collapseArray (sorted_list_of_set (set (specifiers sel ps k)))))"
  by (simp add: map_of_sortKeys distinct_mergeSel map_of_mergeSel)

lemma processed_sorted:
  "sorted (map fst (sortKeys collapseArray (mergeSel sel [] ps))) \<and>
   distinct (map fst (sortKeys collapseArray (mergeSel sel [] ps)))"
  by (simp add: keys_sortKeys distinct_mergeSel)

lemma collapseArray_single:
  "set vs = {s} \<Longrightarrow> collapseArray (sorted_list_of_set (set vs)) = Single s"
  by (simp add: collapseArray_def)

lemma collapseArray_many:
  assumes "\<nexists>s. set vs = {s}"
  shows "collapseArray (sorted_list_of_set (set vs)) = Many (sorted_list_of_set (set vs))"
proof -
  have "card (set vs) \<noteq> 1" using assms by (simp add: card_1_singleton_iff)
  then have "length (sorted_list_of_set (set vs)) \<noteq> 1" by simp
  then show ?thesis by (simp add: collapseArray_def)
qed

lemma map_of_all_deps:
  "map_of (all_deps (appDependencies ps)) k =
     (if k \<in> pkg_name ` set ps \<or> specifiers dependencies ps k = [] then None
      else Some (collapseArray (sorted_list_of_set (set (specifiers dependencies ps k)))))"
  unfolding all_deps_appDependencies
  by (simp add: map_of_filter_keys [where P = "\<lambda>k. k \<notin> pkg_name ` set ps"] map_of_processed)

lemma map_of_dev:
  "map_of (dev (appDependencies ps)) k =
     (if specifiers devDependencies ps k = [] then None
      else Some (collapseArray (sorted_list_of_set (set (specifiers devDependencies ps k)))))"
  unfolding dev_appDependencies by (rule map_of_processed)

lemma value_shape:
  assumes "(if c then None else Some (collapseArray (sorted_list_of_set (set vs)))) = Some x"
  shows "(\<forall>s. set vs = {s} \<longrightarrow> x = Single s) \<and>
         ((\<nexists>s. set vs = {s}) \<longrightarrow> x = Many (sorted_list_of_set (set vs)))"
proof -
  from assms have x: "x = collapseArray (sorted_list_of_set (set vs))"
    by (cases c) simp_all
  show ?thesis unfolding x using collapseArray_single collapseArray_many by blast
qed

lemma alist_eqI:
  assumes "distinct (map fst xs)" "sorted (map fst xs)"
    and "distinct (map fst ys)" "sorted (map fst ys)"
    and "map_of xs = map_of ys"
  shows "xs = ys"
proof -
  have s: "set xs = set ys" using assms(1,3,5) by (simp add: map_of_inject_set)
  have "inj_on fst (set xs)" using assms(1) by (simp add: distinct_map)
  then have "inj_on fst (set xs \<union> set ys)" using s by simp
  then show ?thesis using assms(2,1,4,3) s by (rule map_sorted_distinct_set_unique)
qed

lemma specifiers_set_cong:
  assumes "set ps = set ps'"
  shows "set (specifiers sel ps k) = set (specifiers sel ps' k)"
  using assms by (simp add: specifiers_def)

lemma specifiers_Nil_iff: "specifiers sel ps k = [] \<longleftrightarrow> set (specifiers sel ps k) = {}"
  by simp

lemma all_deps_set_cong:
  assumes "set ps = set ps'"
  shows "all_deps (appDependencies ps) = all_deps (appDependencies ps')"
proof (rule alist_eqI)
  show "distinct (map fst (all_deps (appDependencies ps)))"
    unfolding all_deps_appDependencies using processed_sorted by (simp add: distinct_map_filter)
  show "distinct (map fst (all_deps (appDependencies ps')))"
    unfolding all_deps_appDependencies using processed_sorted by (simp add: distinct_map_filter)
  show "sorted (map fst (all_deps (appDependencies ps)))"
    unfolding all_deps_appDependencies using processed_sorted by (simp add: sorted_filter)
  show "sorted (map fst (all_deps (appDependencies ps')))"
    unfolding all_deps_appDependencies using processed_sorted by (simp add: sorted_filter)
  show "map_of (all_deps (appDependencies ps)) = map_of (all_deps (appDependencies ps'))"
    unfolding map_of_all_deps specifiers_Nil_iff
    by (rule ext) (simp only: assms specifiers_set_cong [OF assms])
qed

lemma dev_set_cong:
  assumes "set ps = set ps'"
  shows "dev (appDependencies ps) = dev (appDependencies ps')"
proof (rule alist_eqI)
  show "distinct (map fst (dev (appDependencies ps)))"
    unfolding dev_appDependencies using processed_sorted by simp
  show "distinct (map fst (dev (appDependencies ps')))"
    unfolding dev_appDependencies using processed_sorted by simp
  show "sorted (map fst (dev (appDependencies ps)))"
    unfolding dev_appDependencies using processed_sorted by simp
  show "sorted (map fst (dev (appDependencies ps')))"
    unfolding dev_appDependencies using processed_sorted by simp
  show "map_of (dev (appDependencies ps)) = map_of (dev (appDependencies ps'))"
    unfolding map_of_dev specifiers_Nil_iff
    by (rule ext) (simp only: specifiers_set_cong [OF assms])
qed

lemma adapt_set_cong:
  assumes "set ps = set ps'" and "sameNameSameVersion ps"
  shows "adapt (appDependencies ps) = adapt (appDependencies ps')"
proof (rule alist_eqI)
  have d: "distinct (map fst (setAdapt [] ps))" "distinct (map fst (setAdapt [] ps'))"
    by (rule distinct_setAdapt, simp)+
  from assms(2) have c': "sameNameSameVersion ps'"
    unfolding sameNameSameVersion_def assms(1) .
  show "distinct (map fst (adapt (appDependencies ps)))"
    unfolding adapt_appDependencies using d by (simp add: keys_sortKeys)
  show "distinct (map fst (adapt (appDependencies ps')))"
    unfolding adapt_appDependencies using d by (simp add: keys_sortKeys)
  show "sorted (map fst (adapt (appDependencies ps)))"
    unfolding adapt_appDependencies using d by (simp add: keys_sortKeys)
  show "sorted (map fst (adapt (appDependencies ps')))"
    unfolding adapt_appDependencies using d by (simp add: keys_sortKeys)
  have "map_of (setAdapt [] ps) k = map_of (setAdapt [] ps') k" for k
  proof (cases "map_of (setAdapt [] ps) k")
    case None
    then have "\<nexists>v. map_of (setAdapt [] ps') k = Some v"
      unfolding map_of_setAdapt [OF c'] assms(1) [symmetric] map_of_setAdapt [OF assms(2), symmetric]
      by simp
    with None show ?thesis by simp
  next
    case (Some v)
    then have "map_of (setAdapt [] ps') k = Some v"
      unfolding map_of_setAdapt [OF c'] assms(1) [symmetric] map_of_setAdapt [OF assms(2), symmetric] .
    with Some show ?thesis by simp
  qed
  then show "map_of (adapt (appDependencies ps)) = map_of (adapt (appDependencies ps'))"
    unfolding adapt_appDependencies by (intro ext) (simp add: map_of_sortKeys d)
qed


lemma all_deps_excludes_plugin_names:
  "k \<in> pkg_name ` set ps \<Longrightarrow> map_of (all_deps (appDependencies ps)) k = None"
  by (simp add: map_of_all_deps)

lemma getAppDependencies_result:
  "getAppDependencies modules fs cwd = Inr d \<Longrightarrow>
     \<exists>dirs ps. getAdaptDepsRecursive (path_join cwd ''node_modules'') modules [] = Inr dirs \<and>
       readManifests fs dirs = Inr ps \<and> d = appDependencies ps"
  by (auto simp: getAppDependencies_def split: sum.splits)

subsection \<open>Tree scanner\<close>

lemma scan_config:
  "getConfigSchemaPathsRecursive dir t files = Inr ps \<Longrightarrow>
     ps = files @ filter (\<lambda>p. endsWith p relativeSchemaPath) (map (\<lambda>(d, c). path_resolve d c) (fileEntries dir t))"
  "configSchemaPathsOfContents dir cs files = Inr ps \<Longrightarrow>
     ps = files @ filter (\<lambda>p. endsWith p relativeSchemaPath) (map (\<lambda>(d, c). path_resolve d c) (fileEntriesOfContents dir cs))"
  apply (induction dir t files and dir cs files arbitrary: ps and ps
      rule: getConfigSchemaPathsRecursive_configSchemaPathsOfContents.induct)
  apply (simp_all add: Let_def split: sum.splits if_splits)
  subgoal premises prems for dir c v cs files ps x2
    using prems(1) [OF refl refl] prems(2) [OF refl refl prems(4)] by simp
  done

lemma scan_adapt:
  "getAdaptDepsRecursive dir t dirs = Inr ds \<Longrightarrow>
     ds = dirs @ map (\<lambda>(d, c). path_dirname (path_resolve d c))
                  (filter (\<lambda>(d, c). endsWith (path_resolve d c) metaFilename) (fileEntries dir t))"
  "adaptDepsOfContents dir cs dirs = Inr ds \<Longrightarrow>
     ds = dirs @ map (\<lambda>(d, c). path_dirname (path_resolve d c))
                  (filter (\<lambda>(d, c). endsWith (path_resolve d c) metaFilename) (fileEntriesOfContents dir cs))"
  apply (induction dir t dirs and dir cs dirs arbitrary: ds and ds
      rule: getAdaptDepsRecursive_adaptDepsOfContents.induct)
  apply (simp_all add: Let_def split: sum.splits if_splits)
  subgoal premises prems for dir c v cs dirs ds x2
    using prems(1) [OF refl refl] prems(2) [OF refl refl prems(4)] by simp
  done

lemma prefix_resolve: "prefix dir (path_resolve dir c)"
  by (simp add: path_resolve_def)

lemma fileEntries_prefix:
  "(d, c) \<in> set (fileEntries dir t) \<Longrightarrow> prefix dir d"
  "(d, c) \<in> set (fileEntriesOfContents dir cs) \<Longrightarrow> prefix dir d"
proof (induction dir t and dir cs rule: fileEntries_fileEntriesOfContents.induct)
qed (auto intro: prefix_order.trans [OF prefix_resolve])

lemma dropWhile_all: "\<forall>x\<in>set xs. P x \<Longrightarrow> dropWhile P xs = []"
  by simp

lemma dropWhile_none: "\<forall>x\<in>set xs. \<not> P x \<Longrightarrow> dropWhile P xs = xs"
  by (cases xs) simp_all

lemma dropWhile_slash_name:
  assumes "r \<noteq> []" and "\<forall>x\<in>set r. x \<noteq> CHR ''/''"
  shows "dropWhile (\<lambda>x. x = CHR ''/'') (r @ ys) = r @ ys"
    and "dropWhile (\<lambda>x. x \<noteq> CHR ''/'') (r @ CHR ''/'' # ys) = CHR ''/'' # ys"
    and "dropWhile (\<lambda>x. x \<noteq> CHR ''/'') r = []"
proof -
  from assms obtain x xs where r: "r = x # xs" "x \<noteq> CHR ''/''" by (cases r) simp_all
  show "dropWhile (\<lambda>x. x = CHR ''/'') (r @ ys) = r @ ys" by (simp add: r)
  show 3: "dropWhile (\<lambda>x. x \<noteq> CHR ''/'') r = []" using assms(2) by (rule dropWhile_all)
  show "dropWhile (\<lambda>x. x \<noteq> CHR ''/'') (r @ CHR ''/'' # ys) = CHR ''/'' # ys"
    by (simp only: dropWhile_append3 [of "\<lambda>x. x \<noteq> CHR ''/''" "CHR ''/''", simplified] 3 append_Nil)
qed

lemma resolvedDir_iff:
  "resolvedDir dir \<longleftrightarrow> dir = ''/'' \<or> (\<exists>d. dir = CHR ''/'' # d \<and> d \<noteq> [] \<and> last d \<noteq> CHR ''/'')"
  by (cases dir) (auto simp: resolvedDir_def)

lemma path_dirname_Cons:
  "path_dirname (x # cs) =
     (case dropWhile (\<lambda>x. x \<noteq> CHR ''/'') (dropWhile (\<lambda>x. x = CHR ''/'') (rev cs)) of
        [] \<Rightarrow> if x = CHR ''/'' then ''/'' else ''.''
      | _ # r \<Rightarrow> if x = CHR ''/'' \<and> r = [] then ''//'' else x # rev r)"
  by (simp add: path_dirname_def)

lemma dirname_resolve:
  assumes "resolvedDir dir" and "validName c"
  shows "path_dirname (path_resolve dir c) = dir"
proof -
  define r where "r = rev c"
  from assms(2) have r: "r \<noteq> []" "\<forall>x\<in>set r. x \<noteq> CHR ''/''"
    by (auto simp: validName_def r_def)
  note dw = dropWhile_slash_name [OF r]
  from assms(1) consider "dir = ''/''" | d where "dir = CHR ''/'' # d" "d \<noteq> []"
    unfolding resolvedDir_iff by blast
  then show ?thesis
  proof cases
    case 1
    have e: "path_resolve dir c = CHR ''/'' # c" by (simp add: 1 path_resolve_def)
    have "dropWhile (\<lambda>x. x = CHR ''/'') r = r" using dw(1) [of "[]"] by simp
    then have "dropWhile (\<lambda>x. x \<noteq> CHR ''/'') (dropWhile (\<lambda>x. x = CHR ''/'') (rev c)) = []"
      unfolding r_def [symmetric] by (simp only: dw(3))
    then have "path_dirname (CHR ''/'' # c) = ''/''" by (simp only: path_dirname_Cons list.case simp_thms if_True)
    then show ?thesis unfolding e by (simp only: 1)
  next
    case 2
    have e: "path_resolve dir c = CHR ''/'' # (d @ CHR ''/'' # c)"
      using 2 by (simp add: path_resolve_def)
    have rv: "rev (d @ CHR ''/'' # c) = r @ CHR ''/'' # rev d" by (simp add: r_def)
    have "dropWhile (\<lambda>x. x \<noteq> CHR ''/'') (dropWhile (\<lambda>x. x = CHR ''/'') (rev (d @ CHR ''/'' # c)))
            = CHR ''/'' # rev d"
      unfolding rv by (simp only: dw(1) dw(2))
    then have "path_dirname (CHR ''/'' # (d @ CHR ''/'' # c)) = CHR ''/'' # d"
      using 2(2) by (simp only: path_dirname_Cons list.case rev_is_Nil_conv rev_rev_ident simp_thms if_False)
    then show ?thesis unfolding e by (simp only: 2(1))
  qed
qed

lemma resolvedDir_resolve:
  assumes "resolvedDir dir" and "validName c"
  shows "resolvedDir (path_resolve dir c)"
proof -
  from assms(2) have "c \<noteq> []" "CHR ''/'' \<notin> set c" by (simp_all add: validName_def)
  then have c: "c \<noteq> []" "last c \<noteq> CHR ''/''" by (metis last_in_set)+
  from assms(1) consider "dir = ''/''" | d where "dir = CHR ''/'' # d" "d \<noteq> []"
    unfolding resolvedDir_iff by blast
  then show ?thesis
  proof cases
    case 1
    then show ?thesis using c by (simp add: path_resolve_def resolvedDir_iff)
  next
    case 2
    then show ?thesis using c by (simp add: path_resolve_def resolvedDir_iff)
  qed
qed


lemma fileEntries_valid:
  "(d, c) \<in> set (fileEntries dir t) \<Longrightarrow> resolvedDir dir \<Longrightarrow> validNames t \<Longrightarrow> resolvedDir d \<and> validName c"
  "(d, c) \<in> set (fileEntriesOfContents dir cs) \<Longrightarrow> resolvedDir dir \<Longrightarrow> validNamesOfContents cs \<Longrightarrow> resolvedDir d \<and> validName c"
  by (induction dir t and dir cs rule: fileEntries_fileEntriesOfContents.induct)
     (auto simp: resolvedDir_resolve)

lemma readable_config:
  "readable t \<Longrightarrow> \<exists>ps. getConfigSchemaPathsRecursive dir t files = Inr ps"
  "readableContents cs \<Longrightarrow> \<exists>ps. configSchemaPathsOfContents dir cs files = Inr ps"
  apply (induction dir t files and dir cs files
      rule: getConfigSchemaPathsRecursive_configSchemaPathsOfContents.induct)
  apply (simp_all add: Let_def)
  subgoal premises prems for dir c v cs files
  proof -
    from prems(1) obtain b
      where b: "configSchemaPathsOfContents (path_resolve dir c) v files = Inr b" by blast
    from prems(2) [OF refl b] show ?thesis by (simp add: b)
  qed
  done

lemma readable_adapt:
  "readable t \<Longrightarrow> \<exists>ds. getAdaptDepsRecursive dir t dirs = Inr ds"
  "readableContents cs \<Longrightarrow> \<exists>ds. adaptDepsOfContents dir cs dirs = Inr ds"
  apply (induction dir t dirs and dir cs dirs
      rule: getAdaptDepsRecursive_adaptDepsOfContents.induct)
  apply (simp_all add: Let_def)
  subgoal premises prems for dir c v cs dirs
  proof -
    from prems(1) obtain b
      where b: "adaptDepsOfContents (path_resolve dir c) v dirs = Inr b" by blast
    from prems(2) [OF refl b] show ?thesis by (simp add: b)
  qed
  done

lemma config_paths_set:
  assumes "getConfigSchemaPathsRecursive root t [] = Inr ps"
  shows "set ps = {p \<in> set (filesUnder root t). endsWith p relativeSchemaPath}"
    and "\<forall>p\<in>set ps. prefix root p"
proof -
  have ps: "ps = filter (\<lambda>p. endsWith p relativeSchemaPath) (filesUnder root t)"
    using scan_config(1) [OF assms] by (simp add: filesUnder_def)
  show "set ps = {p \<in> set (filesUnder root t). endsWith p relativeSchemaPath}"
    unfolding ps by simp
  show "\<forall>p\<in>set ps. prefix root p"
  proof
    fix p assume "p \<in> set ps"
    then have "p \<in> set (filesUnder root t)" unfolding ps by simp
    then obtain d c where dc: "(d, c) \<in> set (fileEntries root t)" "p = path_resolve d c"
      unfolding filesUnder_def by auto
    from fileEntries_prefix(1) [OF dc(1)] prefix_resolve [of d c]
    show "prefix root p" unfolding dc(2) by (rule prefix_order.trans)
  qed
qed

lemma adapt_dirs_set:
  assumes "getAdaptDepsRecursive root t [] = Inr ds" and "resolvedDir root" and "validNames t"
  shows "set ds = {d. \<exists>c. (d, c) \<in> set (fileEntries root t) \<and> endsWith (path_resolve d c) metaFilename}"
proof -
  have ds: "ds = map (\<lambda>(d, c). path_dirname (path_resolve d c))
                  (filter (\<lambda>(d, c). endsWith (path_resolve d c) metaFilename) (fileEntries root t))"
    using scan_adapt(1) [OF assms(1)] by simp
  have dn: "path_dirname (path_resolve d c) = d" if "(d, c) \<in> set (fileEntries root t)" for d c
    using fileEntries_valid(1) [OF that assms(2,3)] by (simp add: dirname_resolve)
  show ?thesis
  proof (intro set_eqI iffI)
    fix x assume "x \<in> set ds"
    then obtain d c where dc: "(d, c) \<in> set (fileEntries root t)"
        "endsWith (path_resolve d c) metaFilename" "x = path_dirname (path_resolve d c)"
      unfolding ds by auto
    with dn [OF dc(1)] show "x \<in> {d. \<exists>c. (d, c) \<in> set (fileEntries root t) \<and> endsWith (path_resolve d c) metaFilename}"
      by auto
  next
    fix x assume "x \<in> {d. \<exists>c. (d, c) \<in> set (fileEntries root t) \<and> endsWith (path_resolve d c) metaFilename}"
    then obtain c where c: "(x, c) \<in> set (fileEntries root t)" "endsWith (path_resolve x c) metaFilename"
      by blast
    then have "path_dirname (path_resolve x c) \<in> set ds" unfolding ds by force
    then show "x \<in> set ds" using dn [OF c(1)] by simp
  qed
qed

subsection \<open>Schema collector\<close>

lemma user_getSchemas: "getSchemas modules fs rootDir = Inr s \<Longrightarrow> user s = superUserSchema"
  by (auto simp: getSchemas_def split: sum.splits)

lemma superUserSchema_shape:
  "jkeys (jpath superUserSchema [''properties'']) = [''superUser'']"
  "jkeys (jpath superUserSchema [''properties'', ''superUser'', ''properties''])
     = [''email'', ''password'', ''confirmPassword'']"
  "map (\<lambda>k. jpath superUserSchema [''properties'', ''superUser'', ''properties'', k, ''type''])
       [''email'', ''password'', ''confirmPassword'']
     = [Some (JString ''string''), Some (JString ''string''), Some (JString ''string'')]"
  "jpath superUserSchema [''properties'', ''superUser'', ''required'']
     = Some (JArray [JString ''email'', JString ''password'', JString ''confirmPassword''])"
  by code_simp+
subsection \<open>Array.prototype.sort\<close>

text \<open>The sort returns a permutation of the array, for every comparator; and every two
  neighbours \<open>x, y\<close> of the result are in an order that a call of the comparator gave:
  \<open>cmp x y < 0\<close> or \<open>0 \<le> cmp y x\<close>.\<close>

lemma extendRun_append: "extendRun cmp d p xs = (r, rest) \<Longrightarrow> r @ rest = xs"
  by (induction xs arbitrary: p r rest) (auto simp: Let_def split: if_splits prod.splits)

lemma extendRun_successively:
  "extendRun cmp d p xs = (r, rest) \<Longrightarrow>
     successively (\<lambda>a b. if d then cmp b a < 0 else 0 \<le> cmp b a) (p # r)"
proof (induction xs arbitrary: p r rest)
  case Nil
  then show ?case by simp
next
  case (Cons c cs)
  obtain r' rest' where e: "extendRun cmp d c cs = (r', rest')" by (cases "extendRun cmp d c cs")
  note ih = Cons.IH [OF e]
  show ?case
  proof (cases d)
    case True
    show ?thesis
    proof (cases "0 \<le> cmp c p")
      case stop: True
      with Cons.prems True have "r = []" by (simp add: Let_def)
      then show ?thesis by simp
    next
      case False
      with Cons.prems True e have "r = c # r'" by (simp add: Let_def)
      with ih False True show ?thesis by simp
    qed
  next
    case False
    show ?thesis
    proof (cases "cmp c p < 0")
      case stop: True
      with Cons.prems False have "r = []" by (simp add: Let_def)
      then show ?thesis by simp
    next
      case go: False
      with Cons.prems False e have "r = c # r'" by (simp add: Let_def)
      with ih False go show ?thesis by simp
    qed
  qed
qed

lemma successively_justified_asc:
  "successively (\<lambda>a b. 0 \<le> cmp b a) xs \<Longrightarrow> successively (justified cmp) xs"
  by (rule successively_mono [of "\<lambda>a b. 0 \<le> cmp b a"]) (simp_all add: justified_def)

lemma successively_justified_desc:
  assumes "successively (\<lambda>a b. cmp b a < 0) xs"
  shows "successively (justified cmp) (rev xs)"
proof -
  from assms have "successively (\<lambda>a b. cmp a b < 0) (rev xs)" by (simp add: successively_rev)
  then show ?thesis
    by (rule successively_mono [of "\<lambda>a b. cmp a b < 0"]) (simp_all add: justified_def)
qed

lemma countAndMakeRun_mset:
  "countAndMakeRun cmp xs = (run, rest) \<Longrightarrow> mset run + mset rest = mset xs"
proof (induction cmp xs rule: countAndMakeRun.induct)
  case (3 cmp h l rest0)
  obtain r rest' where e: "extendRun cmp (cmp l h < 0) l rest0 = (r, rest')"
    by (cases "extendRun cmp (cmp l h < 0) l rest0")
  from extendRun_append [OF e] have a: "r @ rest' = rest0" .
  from 3 e have "rest = rest'" and "mset run = mset (h # l # r)"
    by (auto simp: Let_def split: if_splits)
  then show ?case using a by auto
qed auto

lemma countAndMakeRun_successively:
  "countAndMakeRun cmp xs = (run, rest) \<Longrightarrow> successively (justified cmp) run"
proof (induction cmp xs rule: countAndMakeRun.induct)
  case (3 cmp h l rest0)
  obtain r rest' where e: "extendRun cmp (cmp l h < 0) l rest0 = (r, rest')"
    by (cases "extendRun cmp (cmp l h < 0) l rest0")
  note s = extendRun_successively [OF e]
  show ?case
  proof (cases "cmp l h < 0")
    case True
    with s have "successively (\<lambda>a b. cmp b a < 0) (h # l # r)" by simp
    then have "successively (justified cmp) (rev (h # l # r))" by (rule successively_justified_desc)
    moreover from 3 e True have "run = rev (h # l # r)" by (simp add: Let_def)
    ultimately show ?thesis by simp
  next
    case False
    with s have "successively (\<lambda>a b. 0 \<le> cmp b a) (h # l # r)" by simp
    then have "successively (justified cmp) (h # l # r)" by (rule successively_justified_asc)
    moreover from 3 e False have "run = h # l # r" by (simp add: Let_def)
    ultimately show ?thesis by simp
  qed
qed auto

lemma binarySearch_bracket:
  assumes "left \<le> right" "right \<le> length a"
    and "left = 0 \<or> 0 \<le> cmp pivot (a ! (left - 1))"
    and "right = length a \<or> cmp pivot (a ! right) < 0"
  shows "binarySearch cmp pivot a left right \<le> length a \<and>
         (binarySearch cmp pivot a left right = 0
            \<or> 0 \<le> cmp pivot (a ! (binarySearch cmp pivot a left right - 1))) \<and>
         (binarySearch cmp pivot a left right = length a
            \<or> cmp pivot (a ! binarySearch cmp pivot a left right) < 0)"
  using assms
proof (induction cmp pivot a left right rule: binarySearch.induct)
  case (1 cmp pivot a left right)
  show ?case
  proof (cases "left < right")
    case False
    with 1 have "left = right" by simp
    then show ?thesis using 1(3-) by (subst (1 2 3 4 5) binarySearch.simps) simp
  next
    case True
    define mid where "mid = left + (right - left) div 2"
    have m: "left \<le> mid" "mid < right" using True by (simp_all add: mid_def)
    show ?thesis
    proof (cases "cmp pivot (a ! mid) < 0")
      case lt: True
      have e: "binarySearch cmp pivot a left right = binarySearch cmp pivot a left mid"
        by (subst binarySearch.simps) (simp add: True lt mid_def [symmetric] Let_def)
      have "mid \<le> length a" using m 1(4) by simp
      from 1(1) [OF True mid_def lt m(1) this 1(5)] lt
      show ?thesis unfolding e by simp
    next
      case ge: False
      have e: "binarySearch cmp pivot a left right = binarySearch cmp pivot a (mid + 1) right"
        by (subst binarySearch.simps) (simp add: True ge mid_def [symmetric] Let_def)
      have "mid + 1 \<le> right" using m by simp
      from 1(2) [OF True mid_def ge this 1(4)] ge 1(6)
      show ?thesis unfolding e by simp
    qed
  qed
qed

lemma mset_insertPivot: "mset (insertPivot cmp a pivot) = add_mset pivot (mset a)"
proof -
  have "mset (take n a) + mset (drop n a) = mset a" for n
    by (metis append_take_drop_id mset_append)
  then show ?thesis by (simp add: insertPivot_def Let_def)
qed

lemma successively_insert_at:
  assumes "successively P a" "n \<le> length a"
    and "n = 0 \<or> P (a ! (n - 1)) x"
    and "n = length a \<or> P x (a ! n)"
  shows "successively P (take n a @ x # drop n a)"
proof -
  have s: "successively P (take n a @ drop n a)" using assms(1) by simp
  have 1: "successively P (take n a)" and 2: "successively P (drop n a)"
    using s unfolding successively_append_iff by simp_all
  have 3: "take n a = [] \<or> P (last (take n a)) x"
  proof (cases "n = 0")
    case False
    with assms(2) have "take n a \<noteq> []" by auto
    then have "last (take n a) = take n a ! (length (take n a) - 1)" by (rule last_conv_nth)
    with assms(2) False have "last (take n a) = a ! (n - 1)" by (simp add: min_def)
    with assms(3) False show ?thesis by simp
  qed simp
  have 4: "drop n a = [] \<or> P x (hd (drop n a))"
  proof (cases "n = length a")
    case False
    with assms(2) have "hd (drop n a) = a ! n" by (simp add: hd_drop_conv_nth)
    with assms(4) False show ?thesis by simp
  qed simp
  have "successively P (x # drop n a)" using 2 4 by (cases "drop n a") simp_all
  with 1 3 show ?thesis unfolding successively_append_iff by auto
qed

lemma successively_insertPivot:
  assumes "successively (justified cmp) a"
  shows "successively (justified cmp) (insertPivot cmp a pivot)"
proof -
  define left where "left = binarySearch cmp pivot a 0 (length a)"
  have b: "left \<le> length a \<and> (left = 0 \<or> 0 \<le> cmp pivot (a ! (left - 1)))
           \<and> (left = length a \<or> cmp pivot (a ! left) < 0)"
    unfolding left_def by (rule binarySearch_bracket) simp_all
  have "successively (justified cmp) (take left a @ pivot # drop left a)"
    using assms b by (intro successively_insert_at) (auto simp: justified_def)
  then show ?thesis by (simp add: insertPivot_def left_def Let_def)
qed

lemma mset_binaryInsertionSort:
  "mset (binaryInsertionSort cmp run rest) = mset run + mset rest"
  unfolding binaryInsertionSort_def
  by (induction rest arbitrary: run) (simp_all add: mset_insertPivot)

lemma successively_binaryInsertionSort:
  "successively (justified cmp) run \<Longrightarrow> successively (justified cmp) (binaryInsertionSort cmp run rest)"
  unfolding binaryInsertionSort_def
  by (induction rest arbitrary: run) (simp_all add: successively_insertPivot)

lemma mset_arrayTimSort: "mset (arrayTimSort cmp a) = mset a"
proof (cases "length a < 2")
  case True
  then show ?thesis by (simp add: arrayTimSort_def)
next
  case False
  obtain run rest where e: "countAndMakeRun cmp a = (run, rest)" by (cases "countAndMakeRun cmp a")
  from False e show ?thesis
    by (simp add: arrayTimSort_def mset_binaryInsertionSort countAndMakeRun_mset [OF e])
qed

lemma set_arrayTimSort: "set (arrayTimSort cmp a) = set a"
  by (rule mset_eq_setD) (rule mset_arrayTimSort)

lemma successively_arrayTimSort: "successively (justified cmp) (arrayTimSort cmp a)"
proof (cases "length a < 2")
  case True
  then have "a = [] \<or> (\<exists>x. a = [x])" by (cases a) (auto simp: length_Suc_conv)
  with True show ?thesis by (auto simp: arrayTimSort_def)
next
  case False
  obtain run rest where e: "countAndMakeRun cmp a = (run, rest)" by (cases "countAndMakeRun cmp a")
  from countAndMakeRun_successively [OF e]
  have "successively (justified cmp) (binaryInsertionSort cmp run rest)"
    by (rule successively_binaryInsertionSort)
  with False e show ?thesis by (simp add: arrayTimSort_def)
qed


subsection \<open>Release selector\<close>

lemma time_less_asym: "time_less a b \<Longrightarrow> \<not> time_less b a"
  by (auto simp: time_less_def split: option.splits)

lemma time_less_irrefl: "\<not> time_less a a"
  by (auto simp: time_less_def split: option.splits)

lemma time_less_Some: "time_less (Some x) (Some y) \<longleftrightarrow> x < y"
  by (simp add: time_less_def)

lemma compareDates_neg: "compareDates a b < 0 \<longleftrightarrow> \<not> time_less (date a) (date b)"
  by (simp add: compareDates_def)

lemma justified_compareDates:
  "justified compareDates a b \<Longrightarrow> \<not> time_less (date a) (date b)"
  unfolding justified_def compareDates_def
  by (auto dest: time_less_asym split: if_splits)

lemma successively_sorted_dates:
  "successively (\<lambda>a b. \<not> time_less (date a) (date b)) (arrayTimSort compareDates xs)"
  by (rule successively_mono [OF successively_arrayTimSort]) (rule justified_compareDates)

lemma sorted_arrayTimSort:
  assumes "\<forall>x\<in>set xs. date x \<noteq> None"
  shows "sorted_wrt (\<lambda>a b. the (date b) \<le> the (date a)) (arrayTimSort compareDates xs)"
proof -
  have "successively (\<lambda>a b. the (date b) \<le> the (date a)) (arrayTimSort compareDates xs)"
  proof (rule successively_mono [OF successively_sorted_dates])
    fix x y
    assume "x \<in> set (arrayTimSort compareDates xs)" "y \<in> set (arrayTimSort compareDates xs)"
    with assms have "date x \<noteq> None" "date y \<noteq> None"
      by (simp_all add: set_arrayTimSort)
    then obtain kx ky where k: "date x = Some kx" "date y = Some ky" by blast
    assume "\<not> time_less (date x) (date y)"
    then show "the (date y) \<le> the (date x)" by (simp add: k time_less_Some)
  qed
  moreover have "transp (\<lambda>a b :: candidate. the (date b) \<le> the (date a))"
    by (rule transpI) simp
  ultimately show ?thesis by (simp only: successively_conv_sorted_wrt)
qed

lemma getReleases_Inr:
  "getReleases L w opts = Inr rs \<longleftrightarrow>
     (\<exists>releases. fetchReleases w opts = Inr releases \<and>
        rs = selectReleases L opts (currentVersionDateOf L w) releases)"
  by (auto simp: getReleases_def Let_def split: sum.splits)

lemma set_selectReleases:
  "set (selectReleases L opts cvd releases)
     = {c \<in> annotate L ` set releases. keepRelease L opts cvd c}"
  by (auto simp: selectReleases_def set_arrayTimSort)

lemma later_first:
  assumes s: "sorted_wrt (\<lambda>a b. the (date b) \<le> the (date a)) rs"
    and i: "i < length rs" and j: "j < length rs"
    and lt: "time_less (date (rs ! j)) (date (rs ! i))"
  shows "i < j"
proof (rule ccontr)
  assume "\<not> i < j"
  then consider "i = j" | "j < i" by linarith
  then show False
  proof cases
    case 1
    then show False using lt by (simp add: time_less_irrefl)
  next
    case 2
    with s i have "the (date (rs ! i)) \<le> the (date (rs ! j))"
      by (simp add: sorted_wrt_iff_nth_less)
    moreover from lt obtain a b where "date (rs ! j) = Some a" "date (rs ! i) = Some b" "a < b"
      by (auto simp: time_less_def split: option.splits)
    ultimately show False by simp
  qed
qed

lemma keepRelease_iff:
  "keepRelease L opts cvd c \<longleftrightarrow>
     \<not> (Some (tag_name c) = currentVersion opts
          \<or> (prerelease c = Some True \<and> \<not> includePrereleases opts)
          \<or> (draft c = Some True \<and> \<not> includeDrafts opts)) \<and>
     ((currentVersion opts = None \<or> currentVersion opts = Some [])
        \<or> (\<exists>v. currentVersion opts = Some v \<and> semver_valid L v \<and> semver_valid L (tag_name c)
                 \<and> semver_gt L (tag_name c) v)
        \<or> (\<exists>t d. cvd = Some t \<and> date c = Some d \<and> t < d))"
proof -
  have g: "time_less cvd (date c) \<longleftrightarrow> (\<exists>t d. cvd = Some t \<and> date c = Some d \<and> t < d)"
    by (auto simp: time_less_def split: option.splits)
  show ?thesis
    unfolding keepRelease_def Let_def truthy_def g
    by (cases "currentVersion opts") auto
qed

lemma pushBranches_fails:
  "b \<in> set bs \<Longrightarrow> isl (githubRequest (commits_api w (commitEndpoint (commit_url b)))) \<Longrightarrow>
   isl (pushBranches w bs releases)"
proof (induction bs arbitrary: releases)
  case Nil
  then show ?case by simp
next
  case (Cons a bs)
  show ?case
  proof (cases "a = b")
    case True
    with Cons.prems(2) show ?thesis by (cases "githubRequest (commits_api w (commitEndpoint (commit_url b)))") simp_all
  next
    case False
    with Cons.prems have "b \<in> set bs" by simp
    from Cons.IH [OF this Cons.prems(2)] show ?thesis
      by (auto split: sum.splits option.splits)
  qed
qed

lemma githubRequest_status:
  "status > 299 \<Longrightarrow> githubRequest (Response status statusText body) = Inl (RequestError statusText)"
  by simp

lemma getReleases_isl: "isl (getReleases L w opts) \<longleftrightarrow> isl (fetchReleases w opts)"
  by (auto simp: getReleases_def Let_def split: sum.splits)

lemma pushBranches_Some:
  "pushBranches w bs (Some rs0) = Inr res \<Longrightarrow>
   res = Some (rs0 @ map (\<lambda>b. \<lparr>name = branch_name b @ '' (branch)'', tag_name = branch_name b,
                               published_at = headCommitDate w b, draft = None, prerelease = None,
                               branch = Some True\<rparr>) bs)"
proof (induction bs arbitrary: rs0)
  case Nil
  then show ?case by simp
next
  case (Cons b bs)
  from Cons.prems obtain commit
    where c: "githubRequest (commits_api w (commitEndpoint (commit_url b))) = Inr (Some commit)"
    by (auto split: sum.splits option.splits)
  then have h: "headCommitDate w b = author_date commit" by (simp add: headCommitDate_def)
  from Cons.prems c have "pushBranches w bs
      (Some (rs0 @ [\<lparr>name = branch_name b @ '' (branch)'', tag_name = branch_name b,
                     published_at = author_date commit, draft = None, prerelease = None,
                     branch = Some True\<rparr>])) = Inr res" by simp
  from Cons.IH [OF this] show ?case by (simp add: h)
qed

lemma pushBranches_None: "pushBranches w bs None = Inr res \<Longrightarrow> res = None"
  by (cases bs) (auto split: sum.splits option.splits)

lemma annotate_branch:
  "annotate L \<lparr>name = branch_name b @ '' (branch)'', tag_name = branch_name b,
               published_at = headCommitDate w b, draft = None, prerelease = None,
               branch = Some True\<rparr> = branchCandidate L w b"
  by (simp add: annotate_def branchCandidate_def truthy_def)

lemma keepRelease_branch:
  "keepRelease L (opts\<lparr>includeDrafts := drafts, includePrereleases := pres\<rparr>) cvd (branchCandidate L w b)
     = keepRelease L opts cvd (branchCandidate L w b)"
  by (simp add: keepRelease_def branchCandidate_def truthy_def)

text \<open>
  Claim C1. In the set returned by the aggregator no name of a discovered plugin should be a
  key of \<^verbatim>\<open>all\<close> or of \<^verbatim>\<open>dev\<close>. The loop of lines 289-291 scans \<^verbatim>\<open>deps.all\<close> only
  (\<open>all_deps_excludes_plugin_names\<close> above is that half); \<^verbatim>\<open>deps.dev\<close>, built by the same
  merge, is never scanned. With plugin \<open>a\<close> declaring plugin \<open>b\<close> both as a dependency and as a
  development dependency, \<open>b\<close> is removed from \<^verbatim>\<open>all\<close> and stays in \<^verbatim>\<open>dev\<close>.
\<close>

theorem dev_keeps_discovered_plugin:
  "pkg_name plugin_b = ''adapt-authoring-b'' \<and>
   map_of (adapt (appDependencies [plugin_a, plugin_b])) ''adapt-authoring-b'' = Some ''2.0.0'' \<and>
   map_of (all_deps (appDependencies [plugin_a, plugin_b])) ''adapt-authoring-b'' = None \<and>
   map_of (dev (appDependencies [plugin_a, plugin_b])) ''adapt-authoring-b'' = Some (Single ''^1.0.0'')"
  by code_simp

text \<open>
  Claim C3, as stated: any two arrival orders of the same manifests give the same result.
  It fails when two discovered directories hold the same package name with different
  versions (a nested copy under another package's \<^verbatim>\<open>node_modules\<close>): \<^verbatim>\<open>deps.adapt[name] = version\<close>
  keeps the version that arrives last.
\<close>

theorem order_dependent_on_name_collision:
  "mset [plugin_b, plugin_b_nested] = mset [plugin_b_nested, plugin_b] \<and>
   appDependencies [plugin_b, plugin_b_nested] \<noteq> appDependencies [plugin_b_nested, plugin_b]"
proof -
  have 1: "adapt (appDependencies [plugin_b, plugin_b_nested]) = [(''adapt-authoring-b'', ''1.5.0'')]"
    by code_simp
  have 2: "adapt (appDependencies [plugin_b_nested, plugin_b]) = [(''adapt-authoring-b'', ''2.0.0'')]"
    by code_simp
  have "appDependencies [plugin_b, plugin_b_nested] \<noteq> appDependencies [plugin_b_nested, plugin_b]"
  proof
    assume "appDependencies [plugin_b, plugin_b_nested] = appDependencies [plugin_b_nested, plugin_b]"
    then have "adapt (appDependencies [plugin_b, plugin_b_nested])
               = adapt (appDependencies [plugin_b_nested, plugin_b])" by simp
    then show False unfolding 1 2 by simp
  qed
  then show ?thesis by simp
qed

text \<open>
  Claim C3, amended. For two arrival orders of the same manifests the maps \<^verbatim>\<open>all\<close> and
  \<^verbatim>\<open>dev\<close> are identical, keys in the same order; when manifests of the same name agree
  on the version (in particular when the names are distinct) the whole result is identical;
  and in every case \<^verbatim>\<open>adapt\<close> maps a name to the version of the manifest of that name that
  arrives last (\<^term>\<open>find\<close> on the reversed arrival order), so that on a name collision
  with different versions the last arrival wins.
\<close>

theorem order_independent_for_consistent_names:
  assumes "mset ps = mset ps'"
  shows "all_deps (appDependencies ps) = all_deps (appDependencies ps') \<and>
         dev (appDependencies ps) = dev (appDependencies ps') \<and>
         ((\<forall>p\<in>set ps. \<forall>q\<in>set ps. pkg_name p = pkg_name q \<longrightarrow> pkg_version p = pkg_version q)
            \<longrightarrow> appDependencies ps = appDependencies ps') \<and>
         (\<forall>k. map_of (adapt (appDependencies ps)) k
                = map_option pkg_version (find (\<lambda>p. pkg_name p = k) (rev ps)))"
proof -
  from assms have s: "set ps = set ps'" by (rule mset_eq_setD)
  have a: "all_deps (appDependencies ps) = all_deps (appDependencies ps')" by (rule all_deps_set_cong [OF s])
  have b: "dev (appDependencies ps) = dev (appDependencies ps')" by (rule dev_set_cong [OF s])
  have c: "appDependencies ps = appDependencies ps'"
    if "\<forall>p\<in>set ps. \<forall>q\<in>set ps. pkg_name p = pkg_name q \<longrightarrow> pkg_version p = pkg_version q"
  proof -
    from that have "sameNameSameVersion ps" unfolding sameNameSameVersion_def .
    then have "adapt (appDependencies ps) = adapt (appDependencies ps')" by (rule adapt_set_cong [OF s])
    with a b show ?thesis by (intro deps.equality) simp_all
  qed
  have d: "\<forall>k. map_of (adapt (appDependencies ps)) k
                = map_option pkg_version (find (\<lambda>p. pkg_name p = k) (rev ps))"
    by (simp only: map_of_adapt simp_thms)
  from a b c d show ?thesis by blast
qed

theorem order_independent_for_consistent_names_witness:
  "mset [plugin_a, plugin_b] = mset [plugin_b, plugin_a] \<and>
   appDependencies [plugin_a, plugin_b] = appDependencies [plugin_b, plugin_a] \<and>
   map_of (adapt (appDependencies [plugin_b_nested, plugin_b])) ''adapt-authoring-b''
     = Some (pkg_version plugin_b) \<and>
   map_of (adapt (appDependencies [plugin_b, plugin_b_nested])) ''adapt-authoring-b''
     = Some (pkg_version plugin_b_nested) \<and>
   pkg_version plugin_b \<noteq> pkg_version plugin_b_nested"
proof -
  have m: "mset [plugin_a, plugin_b] = mset [plugin_b, plugin_a]" by simp
  have c: "\<forall>p\<in>set [plugin_a, plugin_b]. \<forall>q\<in>set [plugin_a, plugin_b].
             pkg_name p = pkg_name q \<longrightarrow> pkg_version p = pkg_version q"
    by (simp add: plugin_a_def plugin_b_def)
  have e: "appDependencies [plugin_a, plugin_b] = appDependencies [plugin_b, plugin_a]"
    using order_independent_for_consistent_names [OF m] c by blast
  have l1: "map_of (adapt (appDependencies [plugin_b_nested, plugin_b])) ''adapt-authoring-b''
              = Some (pkg_version plugin_b)"
    using order_independent_for_consistent_names
            [OF refl, of "[plugin_b_nested, plugin_b]", THEN conjunct2, THEN conjunct2, THEN conjunct2,
             rule_format, of "''adapt-authoring-b''"]
    by (simp add: plugin_b_def plugin_b_nested_def)
  have l2: "map_of (adapt (appDependencies [plugin_b, plugin_b_nested])) ''adapt-authoring-b''
              = Some (pkg_version plugin_b_nested)"
    using order_independent_for_consistent_names
            [OF refl, of "[plugin_b, plugin_b_nested]", THEN conjunct2, THEN conjunct2, THEN conjunct2,
             rule_format, of "''adapt-authoring-b''"]
    by (simp add: plugin_b_def plugin_b_nested_def)
  have n: "pkg_version plugin_b \<noteq> pkg_version plugin_b_nested"
    by (simp add: plugin_b_def plugin_b_nested_def)
  from m e l1 l2 n show ?thesis by blast
qed

text \<open>
  Claim C4. A value of \<^verbatim>\<open>all\<close> or \<^verbatim>\<open>dev\<close> is the bare specifier when exactly one distinct
  specifier was declared for the name over all plugins, and otherwise the sorted list of the
  distinct specifiers declared.
\<close>

theorem versions_scalar_or_sorted_list:
  "(map_of (all_deps (appDependencies ps)) k = Some x \<longrightarrow>
      (\<forall>s. set (specifiers dependencies ps k) = {s} \<longrightarrow> x = Single s) \<and>
      ((\<nexists>s. set (specifiers dependencies ps k) = {s}) \<longrightarrow>
         x = Many (sorted_list_of_set (set (specifiers dependencies ps k))))) \<and>
   (map_of (dev (appDependencies ps)) k = Some x \<longrightarrow>
      (\<forall>s. set (specifiers devDependencies ps k) = {s} \<longrightarrow> x = Single s) \<and>
      ((\<nexists>s. set (specifiers devDependencies ps k) = {s}) \<longrightarrow>
         x = Many (sorted_list_of_set (set (specifiers devDependencies ps k)))))"
  unfolding map_of_all_deps map_of_dev
  by (intro conjI impI; erule value_shape [THEN conjunct1] value_shape [THEN conjunct2, rule_format]; assumption?)

theorem versions_scalar_or_sorted_list_witness:
  "map_of (all_deps (appDependencies [plugin_a, plugin_b])) ''glob'' = Some (Single ''^8.0.0'') \<and>
   specifiers dependencies [plugin_a, plugin_b] ''glob'' = [''^8.0.0'', ''^8.0.0''] \<and>
   map_of (all_deps (appDependencies [plugin_a, plugin_b])) ''lodash'' = Some (Many [''^1.0.0'', ''^2.0.0'']) \<and>
   specifiers dependencies [plugin_a, plugin_b] ''lodash'' = [''^2.0.0'', ''^1.0.0''] \<and>
   map_of (dev (appDependencies [plugin_a, plugin_b])) ''mocha'' = Some (Single ''^9.0.0'') \<and>
   specifiers devDependencies [plugin_a, plugin_b] ''mocha'' = [''^9.0.0'']"
proof -
  have g: "map_of (all_deps (appDependencies [plugin_a, plugin_b])) ''glob'' = Some (Single ''^8.0.0'')"
    by code_simp
  have sg: "specifiers dependencies [plugin_a, plugin_b] ''glob'' = [''^8.0.0'', ''^8.0.0'']"
    by code_simp
  have l: "map_of (all_deps (appDependencies [plugin_a, plugin_b])) ''lodash'' = Some (Many [''^1.0.0'', ''^2.0.0''])"
    by code_simp
  have sl: "specifiers dependencies [plugin_a, plugin_b] ''lodash'' = [''^2.0.0'', ''^1.0.0'']"
    by code_simp
  have m: "map_of (dev (appDependencies [plugin_a, plugin_b])) ''mocha'' = Some (Single ''^9.0.0'')"
    by code_simp
  have sm: "specifiers devDependencies [plugin_a, plugin_b] ''mocha'' = [''^9.0.0'']"
    by code_simp
  have nl: "\<nexists>s. set (specifiers dependencies [plugin_a, plugin_b] ''lodash'') = {s}"
    unfolding sl by auto
  have "Many [''^1.0.0'', ''^2.0.0'']
          = Many (sorted_list_of_set (set (specifiers dependencies [plugin_a, plugin_b] ''lodash'')))"
    using versions_scalar_or_sorted_list
            [of "[plugin_a, plugin_b]" "''lodash''" "Many [''^1.0.0'', ''^2.0.0'']"] l nl
    by blast
  then show ?thesis using g sg l sl m sm by simp
qed

text \<open>
  Claim C8. On a tree that can be read the scanner returns; what it returns are exactly the
  paths of the entries below the root that are not directories and whose path ends with the
  suffix, at any depth, each with the root as a prefix; and in the scan of the aggregator
  (names as \<^verbatim>\<open>readdir\<close> gives them, the root as \<^verbatim>\<open>path.join\<close> gives it) the entries returned
  are exactly the directories that contain a marker file.
\<close>

theorem tree_scanner_returns_matching_paths:
  "(readable t \<longrightarrow> (\<exists>ps. getConfigSchemaPathsRecursive root t [] = Inr ps)
                   \<and> (\<exists>ds. getAdaptDepsRecursive root t [] = Inr ds)) \<and>
   (getConfigSchemaPathsRecursive root t [] = Inr ps \<longrightarrow>
      set ps = {p \<in> set (filesUnder root t). endsWith p relativeSchemaPath} \<and>
      (\<forall>p\<in>set ps. prefix root p)) \<and>
   (getAdaptDepsRecursive root t [] = Inr ds \<longrightarrow> resolvedDir root \<longrightarrow> validNames t \<longrightarrow>
      set ds = {d. \<exists>c. (d, c) \<in> set (fileEntries root t) \<and> endsWith (path_resolve d c) metaFilename})"
  using readable_config(1) readable_adapt(1) config_paths_set adapt_dirs_set by blast

theorem tree_scanner_returns_matching_paths_witness:
  "readable exampleTree \<and> validNames exampleTree \<and>
   getConfigSchemaPathsRecursive ''/app/node_modules'' exampleTree [] =
     Inr [''/app/node_modules/adapt-authoring-a/conf/config.schema.json'',
          ''/app/node_modules/lodash/myconf/config.schema.json''] \<and>
   getAdaptDepsRecursive ''/app/node_modules'' exampleTree [] =
     Inr [''/app/node_modules/adapt-authoring-a'',
          ''/app/node_modules/adapt-authoring-a/node_modules/adapt-authoring-b''] \<and>
   set [''/app/node_modules/adapt-authoring-a'',
        ''/app/node_modules/adapt-authoring-a/node_modules/adapt-authoring-b'']
     = {d. \<exists>c. (d, c) \<in> set (fileEntries ''/app/node_modules'' exampleTree)
              \<and> endsWith (path_resolve d c) metaFilename}"
proof -
  have r: "readable exampleTree" by code_simp
  have v: "validNames exampleTree" by code_simp
  have d: "resolvedDir ''/app/node_modules''" by code_simp
  have c: "getConfigSchemaPathsRecursive ''/app/node_modules'' exampleTree [] =
     Inr [''/app/node_modules/adapt-authoring-a/conf/config.schema.json'',
          ''/app/node_modules/lodash/myconf/config.schema.json'']" by code_simp
  have a: "getAdaptDepsRecursive ''/app/node_modules'' exampleTree [] =
     Inr [''/app/node_modules/adapt-authoring-a'',
          ''/app/node_modules/adapt-authoring-a/node_modules/adapt-authoring-b'']" by code_simp
  from tree_scanner_returns_matching_paths [of exampleTree "''/app/node_modules''" _ _] r v d c a
  show ?thesis by blast
qed

text \<open>
  Claim C7. Whatever the installed tree and the files hold, a result of the schema collector
  has as its \<^verbatim>\<open>user\<close> entry the fixed schema of the super-user registration: one property
  \<^verbatim>\<open>superUser\<close>, whose properties are exactly \<^verbatim>\<open>email\<close>, \<^verbatim>\<open>password\<close> and
  \<^verbatim>\<open>confirmPassword\<close>, each of type string, and whose \<^verbatim>\<open>required\<close> list is exactly these
  three names.
\<close>

theorem super_user_schema_always_present:
  assumes "getSchemas modules fs rootDir = Inr s"
  shows "user s = superUserSchema \<and>
         jkeys (jpath (user s) [''properties'']) = [''superUser''] \<and>
         jkeys (jpath (user s) [''properties'', ''superUser'', ''properties''])
           = [''email'', ''password'', ''confirmPassword''] \<and>
         map (\<lambda>k. jpath (user s) [''properties'', ''superUser'', ''properties'', k, ''type''])
             [''email'', ''password'', ''confirmPassword'']
           = [Some (JString ''string''), Some (JString ''string''), Some (JString ''string'')] \<and>
         jpath (user s) [''properties'', ''superUser'', ''required'']
           = Some (JArray [JString ''email'', JString ''password'', JString ''confirmPassword''])"
proof -
  have u: "user s = superUserSchema" using assms by (rule user_getSchemas)
  show ?thesis unfolding u using superUserSchema_shape by (intro conjI) simp_all
qed

theorem super_user_schema_always_present_witness:
  "\<not> isl (getSchemas exampleTree exampleFiles ''/app'') \<and>
   user (projr (getSchemas exampleTree exampleFiles ''/app'')) = superUserSchema \<and>
   map fst (config (projr (getSchemas exampleTree exampleFiles ''/app''))) = [''adapt-authoring-a'', ''lodash'']"
proof -
  have ok: "\<not> isl (getSchemas exampleTree exampleFiles ''/app'')" by code_simp
  then obtain s where s: "getSchemas exampleTree exampleFiles ''/app'' = Inr s"
    by (cases "getSchemas exampleTree exampleFiles ''/app''") simp_all
  have k: "map fst (config (projr (getSchemas exampleTree exampleFiles ''/app''))) = [''adapt-authoring-a'', ''lodash'']"
    by code_simp
  from super_user_schema_always_present [OF s] have "user s = superUserSchema" by simp
  then show ?thesis using ok k s by simp
qed

text \<open>
  Claim C2. The sequence returned by the release selector holds exactly the fetched candidates
  (after the annotation of line 90) that are not excluded and are retained. Excluded: the tag
  equals the current version, or a prerelease with \<^verbatim>\<open>includePrereleases\<close> false, or a draft
  with \<^verbatim>\<open>includeDrafts\<close> false. Retained: no current version is given (\<^verbatim>\<open>undefined\<close> or the
  empty string, which is what \<^verbatim>\<open>!options.currentVersion\<close> tests), or both versions are valid
  and the candidate's is greater, or the candidate's date is after the known commit date.
\<close>

theorem release_filter_exact:
  assumes "getReleases L w opts = Inr rs"
  shows "\<exists>releases. fetchReleases w opts = Inr releases \<and>
           (\<forall>c. c \<in> set rs \<longleftrightarrow>
              c \<in> annotate L ` set releases \<and>
              \<not> (Some (tag_name c) = currentVersion opts
                   \<or> (prerelease c = Some True \<and> \<not> includePrereleases opts)
                   \<or> (draft c = Some True \<and> \<not> includeDrafts opts)) \<and>
              ((currentVersion opts = None \<or> currentVersion opts = Some [])
                 \<or> (\<exists>v. currentVersion opts = Some v \<and> semver_valid L v
                          \<and> semver_valid L (tag_name c) \<and> semver_gt L (tag_name c) v)
                 \<or> (\<exists>t d. currentVersionDateOf L w = Some t \<and> date c = Some d \<and> t < d)))"
proof -
  from assms obtain releases where f: "fetchReleases w opts = Inr releases"
    and rs: "rs = selectReleases L opts (currentVersionDateOf L w) releases"
    unfolding getReleases_Inr by blast
  have "c \<in> set rs \<longleftrightarrow> c \<in> annotate L ` set releases \<and> keepRelease L opts (currentVersionDateOf L w) c" for c
    unfolding rs set_selectReleases by simp
  then show ?thesis using f unfolding keepRelease_iff by blast
qed

theorem release_filter_exact_witness:
  "getReleases exampleLib exampleWorld exampleOptions =
     Inr [\<lparr>name = ''master (branch)'', tag_name = ''master'', published_at = ''2024-03-01T00:00:00Z'',
            draft = None, prerelease = None, branch = Some True, date = Some 1709251200000\<rparr>,
          \<lparr>name = ''Release 3.3.0'', tag_name = ''3.3.0'', published_at = ''2024-02-20T00:00:00Z'',
            draft = Some False, prerelease = Some False, branch = None, date = Some 1708387200000\<rparr>] \<and>
   fetchReleases exampleWorld exampleOptions =
     Inr (exampleReleases @
          [\<lparr>name = ''master (branch)'', tag_name = ''master'', published_at = ''2024-03-01T00:00:00Z'',
            draft = None, prerelease = None, branch = Some True\<rparr>])"
proof -
  have g: "getReleases exampleLib exampleWorld exampleOptions =
     Inr [\<lparr>name = ''master (branch)'', tag_name = ''master'', published_at = ''2024-03-01T00:00:00Z'',
            draft = None, prerelease = None, branch = Some True, date = Some 1709251200000\<rparr>,
          \<lparr>name = ''Release 3.3.0'', tag_name = ''3.3.0'', published_at = ''2024-02-20T00:00:00Z'',
            draft = Some False, prerelease = Some False, branch = None, date = Some 1708387200000\<rparr>]"
    by code_simp
  have f: "fetchReleases exampleWorld exampleOptions =
     Inr (exampleReleases @
          [\<lparr>name = ''master (branch)'', tag_name = ''master'', published_at = ''2024-03-01T00:00:00Z'',
            draft = None, prerelease = None, branch = Some True\<rparr>])"
    by code_simp
  from release_filter_exact [OF g] f g show ?thesis by blast
qed

text \<open>
  Claim C5. In the returned sequence no candidate has a date before the date of the candidate
  that follows it; and when every returned candidate has a valid date the sequence is in
  descending order of date, so that a branch whose head commit is later than a release's date
  stands before that release.
\<close>

theorem releases_sorted_by_date_descending:
  assumes "getReleases L w opts = Inr rs"
  shows "successively (\<lambda>a b. \<not> time_less (date a) (date b)) rs \<and>
         ((\<forall>c\<in>set rs. date c \<noteq> None) \<longrightarrow>
            sorted_wrt (\<lambda>a b. the (date b) \<le> the (date a)) rs \<and>
            (\<forall>i j. i < length rs \<and> j < length rs \<and> branch (rs ! i) = Some True
                     \<and> time_less (date (rs ! j)) (date (rs ! i)) \<longrightarrow> i < j))"
proof -
  from assms obtain releases where rs: "rs = selectReleases L opts (currentVersionDateOf L w) releases"
    unfolding getReleases_Inr by blast
  define xs where "xs = filter (keepRelease L opts (currentVersionDateOf L w)) (map (annotate L) releases)"
  have rs': "rs = arrayTimSort compareDates xs" by (simp add: rs selectReleases_def xs_def)
  have 1: "successively (\<lambda>a b. \<not> time_less (date a) (date b)) rs"
    unfolding rs' by (rule successively_sorted_dates)
  have 2: "sorted_wrt (\<lambda>a b. the (date b) \<le> the (date a)) rs" if "\<forall>c\<in>set rs. date c \<noteq> None"
  proof -
    from that have "\<forall>c\<in>set xs. date c \<noteq> None" by (simp add: rs' set_arrayTimSort)
    then show ?thesis unfolding rs' by (rule sorted_arrayTimSort)
  qed
  from 1 2 later_first show ?thesis by blast
qed

theorem releases_sorted_by_date_descending_witness:
  "\<not> isl (getReleases exampleLib exampleWorld (exampleOptions\<lparr>currentVersion := None, includePrereleases := True\<rparr>)) \<and>
   map tag_name (projr (getReleases exampleLib exampleWorld
                          (exampleOptions\<lparr>currentVersion := None, includePrereleases := True\<rparr>)))
     = [''master'', ''3.3.0'', ''3.2.0'', ''3.1.0''] \<and>
   sorted_wrt (\<lambda>a b. the (date b) \<le> the (date a))
     (projr (getReleases exampleLib exampleWorld
               (exampleOptions\<lparr>currentVersion := None, includePrereleases := True\<rparr>)))"
proof -
  define r where "r = getReleases exampleLib exampleWorld
                        (exampleOptions\<lparr>currentVersion := None, includePrereleases := True\<rparr>)"
  have ok: "\<not> isl r" unfolding r_def by code_simp
  have tags: "map tag_name (projr r) = [''master'', ''3.3.0'', ''3.2.0'', ''3.1.0'']"
    unfolding r_def by code_simp
  have valid: "\<forall>c\<in>set (projr r). date c \<noteq> None" unfolding r_def by code_simp
  from ok have g: "r = Inr (projr r)" by (cases r) simp_all
  from releases_sorted_by_date_descending [OF g [unfolded r_def]] valid
  have "sorted_wrt (\<lambda>a b. the (date b) \<le> the (date a)) (projr r)"
    unfolding r_def by blast
  with ok tags show ?thesis unfolding r_def by simp
qed

text \<open>
  Claim C6. The request-level check throws for every status above 299, and the call fails
  when the request for the releases fails, when (with \<^verbatim>\<open>includeBranches\<close>) the request for
  the branches fails, and when the request for the head commit of a listed branch fails. A
  failure of \<^verbatim>\<open>git log\<close> does not abort the call: the result is the one computed with no
  current date.
\<close>

theorem remote_failure_fatal_git_failure_ignored:
  "(status > 299 \<longrightarrow> githubRequest (Response status statusText body) = Inl (RequestError statusText)) \<and>
   (isl (githubRequest (releases_api w)) \<longrightarrow> isl (getReleases L w opts)) \<and>
   (includeBranches opts \<and> isl (githubRequest (branches_api w)) \<longrightarrow> isl (getReleases L w opts)) \<and>
   (includeBranches opts \<and> githubRequest (branches_api w) = Inr (Some bs) \<and> b \<in> set bs
      \<and> isl (githubRequest (commits_api w (commitEndpoint (commit_url b))))
      \<longrightarrow> isl (getReleases L w opts)) \<and>
   (git_log w = Inl e \<longrightarrow>
      getReleases L w opts =
        (case fetchReleases w opts of
           Inl err \<Rightarrow> Inl err
         | Inr releases \<Rightarrow> Inr (selectReleases L opts None releases)))"
proof (intro conjI impI)
  show "githubRequest (Response status statusText body) = Inl (RequestError statusText)"
    if "status > 299" using that by simp
  show "isl (getReleases L w opts)" if "isl (githubRequest (releases_api w))"
    using that unfolding getReleases_isl
    by (cases "githubRequest (releases_api w)") (simp_all add: fetchReleases_def)
  show "isl (getReleases L w opts)"
    if "includeBranches opts \<and> isl (githubRequest (branches_api w))"
    using that unfolding getReleases_isl
    by (cases "githubRequest (branches_api w)")
       (simp_all add: fetchReleases_def split: sum.splits)
  show "isl (getReleases L w opts)"
    if h: "includeBranches opts \<and> githubRequest (branches_api w) = Inr (Some bs) \<and> b \<in> set bs
      \<and> isl (githubRequest (commits_api w (commitEndpoint (commit_url b))))"
  proof -
    from h have p: "isl (pushBranches w bs releases)" for releases
      by (intro pushBranches_fails [of b]) simp_all
    show ?thesis unfolding getReleases_isl
    proof (cases "githubRequest (releases_api w)")
      case (Inl a)
      then show "isl (fetchReleases w opts)" by (simp add: fetchReleases_def)
    next
      case (Inr releases)
      from p [of releases] obtain err where "pushBranches w bs releases = Inl err"
        by (cases "pushBranches w bs releases") simp_all
      then show "isl (fetchReleases w opts)" using h Inr by (simp add: fetchReleases_def)
    qed
  qed
  show "getReleases L w opts =
        (case fetchReleases w opts of Inl err \<Rightarrow> Inl err
         | Inr releases \<Rightarrow> Inr (selectReleases L opts None releases))"
    if "git_log w = Inl e"
    using that by (simp add: getReleases_def currentVersionDateOf_def)
qed

theorem remote_failure_fatal_git_failure_ignored_witness:
  "githubRequest (Response 403 ''Forbidden'' exampleReleases) = Inl (RequestError ''Forbidden'') \<and>
   isl (getReleases exampleLib (exampleWorld\<lparr>releases_api := Response 500 ''Internal Server Error'' []\<rparr>) exampleOptions) \<and>
   isl (getReleases exampleLib (exampleWorld\<lparr>branches_api := Response 403 ''Forbidden'' []\<rparr>) exampleOptions) \<and>
   isl (getReleases exampleLib (exampleWorld\<lparr>commits_api := (\<lambda>endpoint. Response 404 ''Not Found'' (Commit ''''))\<rparr>) exampleOptions) \<and>
   map tag_name (projr (getReleases exampleLib (exampleWorld\<lparr>git_log := Inl ''fatal: not a git repository''\<rparr>) exampleOptions))
     = map tag_name (selectReleases exampleLib exampleOptions None (projr (fetchReleases exampleWorld exampleOptions))) \<and>
   \<not> isl (getReleases exampleLib (exampleWorld\<lparr>git_log := Inl ''fatal: not a git repository''\<rparr>) exampleOptions)"
proof -
  define w1 where "w1 = exampleWorld\<lparr>releases_api := Response 500 ''Internal Server Error'' []\<rparr>"
  define w2 where "w2 = exampleWorld\<lparr>branches_api := Response 403 ''Forbidden'' []\<rparr>"
  define w3 where "w3 = exampleWorld\<lparr>commits_api := (\<lambda>endpoint. Response 404 ''Not Found'' (Commit ''''))\<rparr>"
  define w4 where "w4 = exampleWorld\<lparr>git_log := Inl ''fatal: not a git repository''\<rparr>"
  note T = remote_failure_fatal_git_failure_ignored
  have a: "(403::nat) > 299" by simp
  have 1: "githubRequest (Response 403 ''Forbidden'' exampleReleases) = Inl (RequestError ''Forbidden'')"
    using a by (rule T [THEN conjunct1, rule_format])
  have h2: "isl (githubRequest (releases_api w1))" unfolding w1_def by code_simp
  have 2: "isl (getReleases exampleLib w1 exampleOptions)"
    using h2 by (rule T [THEN conjunct2, THEN conjunct1, rule_format])
  have h3: "includeBranches exampleOptions \<and> isl (githubRequest (branches_api w2))"
    unfolding w2_def by code_simp
  have 3: "isl (getReleases exampleLib w2 exampleOptions)"
    using h3 by (rule T [THEN conjunct2, THEN conjunct2, THEN conjunct1, rule_format])
  have h4: "includeBranches exampleOptions \<and> githubRequest (branches_api w3) = Inr (Some [exampleBranch])
      \<and> exampleBranch \<in> set [exampleBranch]
      \<and> isl (githubRequest (commits_api w3 (commitEndpoint (commit_url exampleBranch))))"
    unfolding w3_def by code_simp
  have 4: "isl (getReleases exampleLib w3 exampleOptions)"
    using h4 by (rule T [THEN conjunct2, THEN conjunct2, THEN conjunct2, THEN conjunct1, rule_format])
  have h5: "git_log w4 = Inl ''fatal: not a git repository''" unfolding w4_def by code_simp
  have f5: "fetchReleases w4 exampleOptions = Inr (projr (fetchReleases exampleWorld exampleOptions))"
    unfolding w4_def by code_simp
  have 5: "getReleases exampleLib w4 exampleOptions =
             Inr (selectReleases exampleLib exampleOptions None (projr (fetchReleases exampleWorld exampleOptions)))"
    using T [THEN conjunct2, THEN conjunct2, THEN conjunct2, THEN conjunct2, rule_format, OF h5, of exampleLib exampleOptions]
    by (simp add: f5)
  from 1 2 3 4 5 show ?thesis unfolding w1_def w2_def w3_def w4_def by simp
qed

text \<open>
  Claim C9. With \<^verbatim>\<open>includeBranches\<close> the candidates are the annotated releases followed by
  one candidate per listed branch, which has the branch name with \<^verbatim>\<open> (branch)\<close> as name, the
  branch name as tag, the author date of the head commit as date, \<^verbatim>\<open>branch\<close> set and neither
  \<^verbatim>\<open>draft\<close> nor \<^verbatim>\<open>prerelease\<close>; whether the filter keeps it does not depend on
  \<^verbatim>\<open>includeDrafts\<close> and \<^verbatim>\<open>includePrereleases\<close>.
\<close>

theorem branch_candidates_shape:
  assumes "includeBranches opts" and "fetchReleases w opts = Inr releases"
  shows "\<exists>rel bs. githubRequest (releases_api w) = Inr (Some rel) \<and>
           githubRequest (branches_api w) = Inr (Some bs) \<and>
           map (annotate L) releases = map (annotate L) rel @ map (branchCandidate L w) bs \<and>
           (\<forall>b\<in>set bs.
              name (branchCandidate L w b) = branch_name b @ '' (branch)'' \<and>
              tag_name (branchCandidate L w b) = branch_name b \<and>
              date (branchCandidate L w b) = Date L (headCommitDate w b) \<and>
              branch (branchCandidate L w b) = Some True \<and>
              draft (branchCandidate L w b) = None \<and>
              prerelease (branchCandidate L w b) = None \<and>
              (\<forall>cvd drafts pres.
                 keepRelease L (opts\<lparr>includeDrafts := drafts, includePrereleases := pres\<rparr>) cvd
                     (branchCandidate L w b)
                   = keepRelease L opts cvd (branchCandidate L w b)))"
proof -
  from assms obtain r0 bs res where r0: "githubRequest (releases_api w) = Inr r0"
    and bs: "githubRequest (branches_api w) = Inr (Some bs)"
    and p: "pushBranches w bs r0 = Inr (Some releases)"
    by (auto simp: fetchReleases_def split: sum.splits option.splits)
  from p obtain rel where rel: "r0 = Some rel"
    by (cases r0) (auto dest: pushBranches_None)
  from pushBranches_Some [OF p [unfolded rel]]
  have "map (annotate L) releases = map (annotate L) rel @ map (branchCandidate L w) bs"
    by (simp add: annotate_branch comp_def)
  moreover have "name (branchCandidate L w b) = branch_name b @ '' (branch)'' \<and>
              tag_name (branchCandidate L w b) = branch_name b \<and>
              date (branchCandidate L w b) = Date L (headCommitDate w b) \<and>
              branch (branchCandidate L w b) = Some True \<and>
              draft (branchCandidate L w b) = None \<and>
              prerelease (branchCandidate L w b) = None" for b
    by (simp add: branchCandidate_def)
  ultimately show ?thesis using r0 rel bs keepRelease_branch by blast
qed

theorem branch_candidates_shape_witness:
  "includeBranches exampleOptions \<and>
   map (annotate exampleLib) (projr (fetchReleases exampleWorld exampleOptions))
     = map (annotate exampleLib) exampleReleases @ [branchCandidate exampleLib exampleWorld exampleBranch] \<and>
   branchCandidate exampleLib exampleWorld exampleBranch
     = \<lparr>name = ''master (branch)'', tag_name = ''master'', published_at = ''2024-03-01T00:00:00Z'',
        draft = None, prerelease = None, branch = Some True, date = Some 1709251200000\<rparr>"
proof -
  have i: "includeBranches exampleOptions" by code_simp
  have f: "fetchReleases exampleWorld exampleOptions = Inr (projr (fetchReleases exampleWorld exampleOptions))"
  proof -
    have "\<not> isl (fetchReleases exampleWorld exampleOptions)" by code_simp
    then show ?thesis by (cases "fetchReleases exampleWorld exampleOptions") simp_all
  qed
  have r: "githubRequest (releases_api exampleWorld) = Inr (Some exampleReleases)" by code_simp
  have b: "githubRequest (branches_api exampleWorld) = Inr (Some [exampleBranch])" by code_simp
  have c: "branchCandidate exampleLib exampleWorld exampleBranch
     = \<lparr>name = ''master (branch)'', tag_name = ''master'', published_at = ''2024-03-01T00:00:00Z'',
        draft = None, prerelease = None, branch = Some True, date = Some 1709251200000\<rparr>"
    by code_simp
  from branch_candidates_shape [OF i f, of exampleLib] r b
  have "map (annotate exampleLib) (projr (fetchReleases exampleWorld exampleOptions))
     = map (annotate exampleLib) exampleReleases @ [branchCandidate exampleLib exampleWorld exampleBranch]"
    by auto
  with i c show ?thesis by simp
qed

text \<open>
  Claim C10. When a current version is supplied (a string that is not empty) and \<^verbatim>\<open>git log\<close>
  fails, the selector returns, every returned candidate satisfies the semantic-version
  clause, and the result is empty when the current version is not a valid semantic version.
\<close>

theorem unknown_date_leaves_semver_clause:
  assumes "currentVersion opts = Some v" and "v \<noteq> []"
    and "git_log w = Inl e" and "fetchReleases w opts = Inr releases"
  shows "\<exists>rs. getReleases L w opts = Inr rs \<and>
           (\<forall>c\<in>set rs. semver_valid L v \<and> semver_valid L (tag_name c) \<and> semver_gt L (tag_name c) v) \<and>
           (\<not> semver_valid L v \<longrightarrow> rs = [])"
proof -
  have d: "currentVersionDateOf L w = None" using assms(3) by (simp add: currentVersionDateOf_def)
  define rs where "rs = selectReleases L opts None releases"
  have g: "getReleases L w opts = Inr rs"
    unfolding getReleases_Inr using assms(4) by (simp add: rs_def d)
  have k: "semver_valid L v \<and> semver_valid L (tag_name c) \<and> semver_gt L (tag_name c) v"
    if "c \<in> set rs" for c
  proof -
    from that have "keepRelease L opts None c" unfolding rs_def set_selectReleases by simp
    then show ?thesis unfolding keepRelease_iff using assms(1,2) by auto
  qed
  have "rs = []" if "\<not> semver_valid L v"
  proof (rule ccontr)
    assume "rs \<noteq> []"
    then obtain c where "c \<in> set rs" by (cases rs) auto
    from k [OF this] that show False by simp
  qed
  with g k show ?thesis by blast
qed

theorem unknown_date_leaves_semver_clause_witness:
  "getReleases exampleLib (exampleWorld\<lparr>git_log := Inl ''fatal: not a git repository''\<rparr>)
       (exampleOptions\<lparr>currentVersion := Some ''master''\<rparr>) = Inr [] \<and>
   map tag_name (projr (getReleases exampleLib (exampleWorld\<lparr>git_log := Inl ''fatal: not a git repository''\<rparr>)
       exampleOptions)) = [''3.3.0'']"
proof -
  define w where "w = exampleWorld\<lparr>git_log := Inl ''fatal: not a git repository''\<rparr>"
  define o1 where "o1 = exampleOptions\<lparr>currentVersion := Some ''master''\<rparr>"
  have cv: "currentVersion o1 = Some ''master''" unfolding o1_def by code_simp
  have ne: "''master'' \<noteq> []" by simp
  have gl: "git_log w = Inl ''fatal: not a git repository''" unfolding w_def by code_simp
  have inv: "\<not> semver_valid exampleLib ''master''" by code_simp
  have f: "fetchReleases w o1 = Inr (projr (fetchReleases w o1))"
  proof -
    have "\<not> isl (fetchReleases w o1)" unfolding w_def o1_def by code_simp
    then show ?thesis by (cases "fetchReleases w o1") simp_all
  qed
  from unknown_date_leaves_semver_clause [OF cv ne gl f, of exampleLib] inv
  have 1: "getReleases exampleLib w o1 = Inr []" by auto
  have 2: "map tag_name (projr (getReleases exampleLib w exampleOptions)) = [''3.3.0'']"
    unfolding w_def by code_simp
  from 1 2 show ?thesis unfolding w_def o1_def by simp
qed

end
